theory Spec2Isabelle
  imports Main "HOL-Library.Word" "HOL-Library.AList"
begin

section \<open>The packet handler map of quic-go (packet\_handler\_map.go)\<close>

text \<open>
  The registry \<open>packetHandlerMap\<close> maps connection IDs to packet handlers, keeps a second
  index from stateless-reset tokens to handlers, and has one optional server slot. The
  receiver loop \<open>listen\<close> reads datagrams and hands each to \<open>handlePacket\<close>.

  Modelling decisions.
  \<^item> The two Go maps are association lists with distinct keys: \<open>map_of\<close> is the lookup,
    \<open>AList.update\<close> the assignment \<open>m[k] = v\<close>, \<open>AList.delete\<close> the builtin \<open>delete\<close>, and a
    \<open>for ... range\<close> loop visits the entries of the list.
  \<^item> Every method takes the registry and returns the registry it leaves behind, together
    with the list of calls it made on its collaborators (handlers, server, timer, logger).
    The fields \<open>conn\<close> and \<open>logger\<close> are such collaborators and not part of the state:
    the socket is the script of results that \<open>listen\<close> consumes.
  \<^item> Every method body between \<open>Lock\<close> and \<open>Unlock\<close> is one atomic step from the
    registry it is given. \<open>Add\<close>, the removal, \<open>SetServer\<close>, \<open>CloseServer\<close> and \<open>close\<close>
    release the lock on every path, so each is a function of the two maps, the server
    slot and the flag.
  \<^item> \<open>handlePacket\<close> does not release its read lock on every path. The number of read
    locks a call leaves held is \<open>handlePacketLocks\<close>, and the receiver loop, which calls
    \<open>handlePacket\<close> and \<open>close\<close> on one goroutine, carries that number: a \<open>Lock\<close> while
    a read lock is held never returns.
  \<^item> The goroutines spawned by \<open>close\<close> and \<open>CloseServer\<close> run in an order chosen by the
    scheduler. The model lists their calls in the order of the entries; the theorems below
    only count calls, or speak about the order inside one goroutine.
\<close>

subsection \<open>Types of the collaborators\<close>

type_synonym byte = "8 word"
type_synonym ConnectionID = "byte list"
type_synonym token = "byte list"
type_synonym VersionNumber = "32 word"
type_synonym Addr = string
type_synonym Time = nat
type_synonym Duration = nat

text \<open>
  Modelled from the spec: \<open>protocol.Perspective\<close> and its method \<open>Opposite\<close> (the package
  \<open>internal/protocol\<close> is not among the sources). A participant is client or server, and
  the sender of a packet is expected to be the opposite of the local handler.
\<close>

datatype Perspective = PerspectiveServer | PerspectiveClient

fun Opposite :: "Perspective \<Rightarrow> Perspective" where
  "Opposite PerspectiveServer = PerspectiveClient"
| "Opposite PerspectiveClient = PerspectiveServer"

text \<open>
  The constants of \<open>internal/protocol\<close> that the file uses are parameters of the model.
\<close>

record protocol =
  MaxReceivePacketSize :: nat
  MinStatelessResetSize :: nat
  RetiredConnectionIDDeleteTimeout :: Duration

text \<open>
  Errors. The dispatcher builds its own errors with \<open>fmt.Errorf\<close> and \<open>errors.New\<close>; one
  constructor stands for each format string. \<open>External\<close> is an error that comes from a
  collaborator (the socket or the header parser).
\<close>

datatype error =
    External string
  | ErrParsingInvariantHeader error
  | ErrShortHeaderUnexpectedConnID ConnectionID
  | ErrUnexpectedConnID ConnectionID
  | ErrParsingHeader error
  | ErrLengthShorterThanPacketNumber nat nat
  | ErrLengthSmallerThanExpected nat nat
  | ErrStatelessReset

text \<open>
  The headers of package \<open>wire\<close>, with the fields that \<open>handlePacket\<close> reads or writes.
  \<open>Length\<close> (\<open>protocol.ByteCount\<close>) and \<open>PacketNumberLen\<close> are unsigned; their widths are
  declared in the absent package, and they are natural numbers here.
\<close>

record InvariantHeader =
  IsLongHeader :: bool
  Version :: VersionNumber
  DestConnectionID :: ConnectionID

record Header = InvariantHeader +
  Raw :: "byte list"
  Length :: nat
  PacketNumberLen :: nat

text \<open>
  The two parsing functions of package \<open>wire\<close> are parameters. Both read from the
  \<open>bytes.Reader\<close> over the datagram; the reader is the datagram with an offset, and a
  parser that succeeds returns the offset it has reached.
  \<open>ParseInvariantHeader w data connIDLen\<close> starts at offset 0;
  \<open>Parse w iHdr data pos sentBy version\<close> continues at offset \<open>pos\<close>.
\<close>

record wire =
  ParseInvariantHeader :: "byte list \<Rightarrow> nat \<Rightarrow> error + (InvariantHeader \<times> nat)"
  Parse :: "InvariantHeader \<Rightarrow> byte list \<Rightarrow> nat \<Rightarrow> Perspective \<Rightarrow> VersionNumber
              \<Rightarrow> error + (Header \<times> nat)"

text \<open>
  A packet handler (a session) is an object: \<open>hid\<close> is its identity, and the two getters
  are fields. The server in the slot is an \<open>unknownPacketHandler\<close>.
\<close>

datatype packetHandler =
  PacketHandler (hid: nat) (GetPerspective: Perspective) (GetVersion: VersionNumber)

datatype unknownPacketHandler = UnknownPacketHandler (sid: nat)

record receivedPacket =
  remoteAddr :: Addr
  header :: Header
  data :: "byte list"
  rcvTime :: Time

text \<open>The calls the registry makes on its collaborators.\<close>

datatype target = ToHandler packetHandler | ToServer unknownPacketHandler

datatype event =
    HandlePacket target receivedPacket
  | Destroy packetHandler error
  | Close packetHandler
  | CloseWithError unknownPacketHandler error
  | AfterFunc Duration ConnectionID
  | Debugf Addr error

subsection \<open>The registry\<close>

record packetHandlerEntry =
  handler :: packetHandler
  resetToken :: "token option"

record packetHandlerMap =
  connIDLen :: nat
  handlers :: "(ConnectionID \<times> packetHandlerEntry) list"
  resetTokens :: "(token \<times> packetHandler) list"
  server :: "unknownPacketHandler option"
  closed :: bool
  deleteRetiredSessionsAfter :: Duration

definition newPacketHandlerMap :: "protocol \<Rightarrow> nat \<Rightarrow> packetHandlerMap" where
  "newPacketHandlerMap p n =
     \<lparr> connIDLen = n, handlers = [], resetTokens = [], server = None, closed = False,
       deleteRetiredSessionsAfter = RetiredConnectionIDDeleteTimeout p \<rparr>"

definition Add :: "ConnectionID \<Rightarrow> packetHandler \<Rightarrow> packetHandlerMap \<Rightarrow> packetHandlerMap" where
  "Add cid hdl h =
     h\<lparr> handlers := AList.update cid \<lparr> handler = hdl, resetToken = None \<rparr> (handlers h) \<rparr>"

definition AddWithResetToken ::
  "ConnectionID \<Rightarrow> packetHandler \<Rightarrow> token \<Rightarrow> packetHandlerMap \<Rightarrow> packetHandlerMap" where
  "AddWithResetToken cid hdl tok h =
     h\<lparr> handlers := AList.update cid \<lparr> handler = hdl, resetToken = Some tok \<rparr> (handlers h),
        resetTokens := AList.update tok hdl (resetTokens h) \<rparr>"

definition removeByConnectionIDAsString :: "ConnectionID \<Rightarrow> packetHandlerMap \<Rightarrow> packetHandlerMap" where
  "removeByConnectionIDAsString cid h =
     (case map_of (handlers h) cid of
        Some handlerEntry \<Rightarrow>
          (let h1 = (case resetToken handlerEntry of
                       Some tok \<Rightarrow> h\<lparr> resetTokens := AList.delete tok (resetTokens h) \<rparr>
                     | None \<Rightarrow> h)
           in h1\<lparr> handlers := AList.delete cid (handlers h1) \<rparr>)
      | None \<Rightarrow> h)"

definition Remove :: "ConnectionID \<Rightarrow> packetHandlerMap \<Rightarrow> packetHandlerMap" where
  "Remove cid h = removeByConnectionIDAsString cid h"

text \<open>
  \<open>time.AfterFunc(d, f)\<close> returns at once; the call is recorded as \<open>AfterFunc d cid\<close>, and
  the timer firing later is the step \<open>removeByConnectionIDAsString cid\<close>.
\<close>

definition retireByConnectionIDAsString :: "ConnectionID \<Rightarrow> packetHandlerMap \<Rightarrow> event list" where
  "retireByConnectionIDAsString cid h = [AfterFunc (deleteRetiredSessionsAfter h) cid]"

definition Retire :: "ConnectionID \<Rightarrow> packetHandlerMap \<Rightarrow> packetHandlerMap \<times> event list" where
  "Retire cid h = (h, retireByConnectionIDAsString cid h)"

definition SetServer :: "unknownPacketHandler option \<Rightarrow> packetHandlerMap \<Rightarrow> packetHandlerMap" where
  "SetServer s h = h\<lparr> server := s \<rparr>"

text \<open>
  \<open>CloseServer\<close>: one goroutine for each entry whose handler has the server perspective;
  it calls \<open>Close\<close> on the handler and then retires the connection ID of the entry.
\<close>

fun closeServerLoop :: "packetHandlerMap \<Rightarrow> (ConnectionID \<times> packetHandlerEntry) list \<Rightarrow> event list" where
  "closeServerLoop h [] = []"
| "closeServerLoop h ((cid, handlerEntry) # rest) =
     (if GetPerspective (handler handlerEntry) = PerspectiveServer
      then Close (handler handlerEntry) # retireByConnectionIDAsString cid h @ closeServerLoop h rest
      else closeServerLoop h rest)"

definition CloseServer :: "packetHandlerMap \<Rightarrow> packetHandlerMap \<times> event list" where
  "CloseServer h = (let h1 = h\<lparr> server := None \<rparr> in (h1, closeServerLoop h1 (handlers h1)))"

text \<open>\<open>close\<close> returns \<open>nil\<close> on every path; \<open>None\<close> is \<open>nil\<close>.\<close>

fun closeLoop :: "error \<Rightarrow> (ConnectionID \<times> packetHandlerEntry) list \<Rightarrow> event list" where
  "closeLoop e [] = []"
| "closeLoop e ((cid, handlerEntry) # rest) = Destroy (handler handlerEntry) e # closeLoop e rest"

definition close :: "error \<Rightarrow> packetHandlerMap \<Rightarrow> error option \<times> packetHandlerMap \<times> event list" where
  "close e h =
     (if closed h then (None, h, [])
      else
        (let h1 = h\<lparr> closed := True \<rparr>
         in (None, h1,
             closeLoop e (handlers h1) @
             (case server h1 of Some s \<Rightarrow> [CloseWithError s e] | None \<Rightarrow> []))))"

subsection \<open>The dispatcher\<close>

text \<open>
  A call either returns (an error or \<open>nil\<close>) or panics on a slice bound.
\<close>

datatype outcome = Returns "error option" | Panics

text \<open>
  Lines 211 to 235 of \<open>handlePacket\<close>: the full header parse, the length checks on a long
  header, and the delivery. \<open>r.Len()\<close> is the number of unread bytes. The slice
  \<open>packetData[:Length - PacketNumberLen]\<close> is taken only after the two checks, which bound
  it by \<open>len(packetData)\<close>.
\<close>

definition parseAndDeliver ::
  "wire \<Rightarrow> Time \<Rightarrow> Addr \<Rightarrow> byte list \<Rightarrow> InvariantHeader \<Rightarrow> nat \<Rightarrow> Perspective \<Rightarrow> VersionNumber
     \<Rightarrow> target \<Rightarrow> outcome \<times> event list" where
  "parseAndDeliver w now addr dat iHdr pos sentBy version tgt =
     (case Parse w iHdr dat pos sentBy version of
        Inl err \<Rightarrow> (Returns (Some (ErrParsingHeader err)), [])
      | Inr (hdr0, pos') \<Rightarrow>
          (let rLen = length dat - pos';
               hdr = hdr0\<lparr> Raw := take (length dat - rLen) dat \<rparr>;
               packetData = drop (length dat - rLen) dat
           in if IsLongHeader hdr then
                if Length hdr < PacketNumberLen hdr then
                  (Returns (Some (ErrLengthShorterThanPacketNumber (Length hdr) (PacketNumberLen hdr))), [])
                else if length packetData + PacketNumberLen hdr < Length hdr then
                  (Returns (Some (ErrLengthSmallerThanExpected
                                    (length packetData + PacketNumberLen hdr) (Length hdr))), [])
                else
                  (Returns None,
                   [HandlePacket tgt \<lparr> remoteAddr = addr, header = hdr,
                       data = take (Length hdr - PacketNumberLen hdr) packetData, rcvTime = now \<rparr>])
              else
                (Returns None,
                 [HandlePacket tgt \<lparr> remoteAddr = addr, header = hdr,
                     data = packetData, rcvTime = now \<rparr>])))"

text \<open>
  Lines 174 to 209 of \<open>handlePacket\<close>: the lookup under the read lock. It either ends the
  call (\<open>Inl\<close>: a stateless reset, or a packet nobody owns) or chooses who receives the
  packet and how the rest of the header is parsed (\<open>Inr\<close>: the expected sender, the
  version and the \<open>handlePacket\<close> entry point). \<open>data[len(data)-16:]\<close> panics when the
  datagram has fewer than 16 bytes. What \<open>route\<close> returns does not say whether the read
  lock was released; \<open>readLocksHeld\<close> below follows the same paths for that.
\<close>

definition route ::
  "protocol \<Rightarrow> byte list \<Rightarrow> packetHandlerMap \<Rightarrow> InvariantHeader
     \<Rightarrow> (outcome \<times> event list) + (Perspective \<times> VersionNumber \<times> target)" where
  "route p dat h iHdr =
     (case map_of (handlers h) (DestConnectionID iHdr) of
        Some handlerEntry \<Rightarrow>
          Inr (Opposite (GetPerspective (handler handlerEntry)),
               GetVersion (handler handlerEntry),
               ToHandler (handler handlerEntry))
      | None \<Rightarrow>
          if \<not> IsLongHeader iHdr then
            if MinStatelessResetSize p \<le> length dat then
              if length dat < 16 then Inl (Panics, [])
              else
                (case map_of (resetTokens h) (drop (length dat - 16) dat) of
                   Some sess \<Rightarrow> Inl (Returns None, [Destroy sess ErrStatelessReset])
                 | None \<Rightarrow>
                     Inl (Returns (Some (ErrShortHeaderUnexpectedConnID (DestConnectionID iHdr))), []))
            else Inl (Returns (Some (ErrShortHeaderUnexpectedConnID (DestConnectionID iHdr))), [])
          else
            (case server h of
               None \<Rightarrow> Inl (Returns (Some (ErrUnexpectedConnID (DestConnectionID iHdr))), [])
             | Some srv \<Rightarrow> Inr (PerspectiveClient, Version iHdr, ToServer srv)))"

text \<open>
  \<open>handlePacket\<close>. It reads the registry and writes nothing to it, so it returns only its
  outcome and its calls.
\<close>

definition handlePacket ::
  "wire \<Rightarrow> protocol \<Rightarrow> Time \<Rightarrow> Addr \<Rightarrow> byte list \<Rightarrow> packetHandlerMap \<Rightarrow> outcome \<times> event list" where
  "handlePacket w p now addr dat h =
     (case ParseInvariantHeader w dat (connIDLen h) of
        Inl err \<Rightarrow> (Returns (Some (ErrParsingInvariantHeader err)), [])
      | Inr (iHdr, pos) \<Rightarrow>
          (case route p dat h iHdr of
             Inl fin \<Rightarrow> fin
           | Inr (sentBy, version, tgt) \<Rightarrow>
               parseAndDeliver w now addr dat iHdr pos sentBy version tgt))"

text \<open>
  The read lock of \<open>handlePacket\<close>. \<open>RLock\<close> is called at line 174, after the invariant
  header has parsed. \<open>readLocksHeld\<close> follows the paths of lines 174 to 209 and gives the
  number of read locks the call holds when it leaves them: \<open>RUnlock\<close> is called at line
  193 (stateless reset), at line 202 (long header, no server) and at line 209 (a handler
  or the server was chosen), but not before the return at line 199 (short header, no
  handler, no reset token), and not before a panic at line 191.
\<close>

definition readLocksHeld :: "protocol \<Rightarrow> byte list \<Rightarrow> packetHandlerMap \<Rightarrow> InvariantHeader \<Rightarrow> nat" where
  "readLocksHeld p dat h iHdr =
     (case map_of (handlers h) (DestConnectionID iHdr) of
        Some handlerEntry \<Rightarrow> 0
      | None \<Rightarrow>
          if \<not> IsLongHeader iHdr then
            if MinStatelessResetSize p \<le> length dat then
              if length dat < 16 then 1
              else
                (case map_of (resetTokens h) (drop (length dat - 16) dat) of
                   Some sess \<Rightarrow> 0
                 | None \<Rightarrow> 1)
            else 1
          else
            (case server h of
               None \<Rightarrow> 0
             | Some srv \<Rightarrow> 0))"

definition handlePacketLocks :: "wire \<Rightarrow> protocol \<Rightarrow> byte list \<Rightarrow> packetHandlerMap \<Rightarrow> nat" where
  "handlePacketLocks w p dat h =
     (case ParseInvariantHeader w dat (connIDLen h) of
        Inl err \<Rightarrow> 0
      | Inr (iHdr, pos) \<Rightarrow> readLocksHeld p dat h iHdr)"

subsection \<open>The receiver loop\<close>

text \<open>
  The socket is a script of results of \<open>ReadFrom\<close>: a datagram with its sender (and the
  clock value \<open>handlePacket\<close> will read), or an error. The buffer has
  \<open>MaxReceivePacketSize\<close> bytes, so a longer datagram is truncated. When the script is
  used up the loop is still blocked in \<open>ReadFrom\<close>.

  \<open>readers\<close> is the number of read locks on \<open>h.mutex\<close> that earlier calls of
  \<open>handlePacket\<close> have left held; it is 0 for a new registry. Nobody releases such a
  lock, so \<open>close\<close>, which starts with \<open>h.mutex.Lock()\<close> at line 121, never returns when
  \<open>readers\<close> is not 0: the loop is \<open>Blocked\<close>, with the registry as it was and no call
  made. A later \<open>RLock\<close> is not held up by a read lock.
\<close>

datatype readResult = Datagram Addr "byte list" Time | ReadError error

datatype loopState = Reading | Stopped | Crashed | Blocked

fun listen ::
  "wire \<Rightarrow> protocol \<Rightarrow> readResult list \<Rightarrow> packetHandlerMap \<Rightarrow> nat
     \<Rightarrow> loopState \<times> packetHandlerMap \<times> event list" where
  "listen w p [] h readers = (Reading, h, [])"
| "listen w p (ReadError err # rest) h readers =
     (if 0 < readers then (Blocked, h, [])
      else (case close err h of (_, h', tr) \<Rightarrow> (Stopped, h', tr)))"
| "listen w p (Datagram addr dgram now # rest) h readers =
     (case handlePacket w p now addr (take (MaxReceivePacketSize p) dgram) h of
        (Panics, tr) \<Rightarrow> (Crashed, h, tr)
      | (Returns None, tr) \<Rightarrow>
          (case listen w p rest h
                  (readers + handlePacketLocks w p (take (MaxReceivePacketSize p) dgram) h) of
             (st, h', tr') \<Rightarrow> (st, h', tr @ tr'))
      | (Returns (Some err), tr) \<Rightarrow>
          (case listen w p rest h
                  (readers + handlePacketLocks w p (take (MaxReceivePacketSize p) dgram) h) of
             (st, h', tr') \<Rightarrow> (st, h', tr @ Debugf addr err # tr')))"

subsection \<open>A concrete header format for evaluation\<close>

text \<open>
  The package \<open>wire\<close> is not among the sources, so the theorems below hold for every pair
  of parsers. To evaluate the dispatcher on concrete datagrams, \<open>toyWire\<close> is a small
  header format of the same shape: a first byte whose top bit marks a long header, the
  destination connection ID of the configured length, and then one byte for the declared
  length and one for the packet-number length.
\<close>

definition toyParseInvariantHeader :: "byte list \<Rightarrow> nat \<Rightarrow> error + (InvariantHeader \<times> nat)" where
  "toyParseInvariantHeader dat n =
     (case dat of
        [] \<Rightarrow> Inl (External ''EOF'')
      | b # rest \<Rightarrow>
          if length rest < n then Inl (External ''EOF'')
          else Inr (\<lparr> IsLongHeader = (128 \<le> unat b), Version = 1,
                      DestConnectionID = take n rest \<rparr>, Suc n))"

definition toyParse ::
  "InvariantHeader \<Rightarrow> byte list \<Rightarrow> nat \<Rightarrow> Perspective \<Rightarrow> VersionNumber \<Rightarrow> error + (Header \<times> nat)" where
  "toyParse iHdr dat pos sentBy version =
     (case drop pos dat of
        l # n # _ \<Rightarrow>
          Inr (\<lparr> IsLongHeader = IsLongHeader iHdr, Version = version,
                 DestConnectionID = DestConnectionID iHdr,
                 Raw = [], Length = unat l, PacketNumberLen = unat n \<rparr>, pos + 2)
      | _ \<Rightarrow> Inl (External ''EOF''))"

definition toyWire :: wire where
  "toyWire = \<lparr> ParseInvariantHeader = toyParseInvariantHeader, Parse = toyParse \<rparr>"

definition toyProtocol :: protocol where
  "toyProtocol = \<lparr> MaxReceivePacketSize = 1452, MinStatelessResetSize = 39,
                   RetiredConnectionIDDeleteTimeout = 5000 \<rparr>"

text \<open>Two sessions, a server, and a reset token, for the concrete instances.\<close>

definition sessA :: packetHandler where
  "sessA = PacketHandler 1 PerspectiveServer 1"

definition sessB :: packetHandler where
  "sessB = PacketHandler 2 PerspectiveClient 1"

definition srv0 :: unknownPacketHandler where
  "srv0 = UnknownPacketHandler 0"

definition tokA :: token where
  "tokA = [1, 2, 3, 4, 5, 6, 7, 8, 9, 10, 11, 12, 13, 14, 15, 16]"

definition emptyMap :: packetHandlerMap where
  "emptyMap = newPacketHandlerMap toyProtocol 1"

subsection \<open>Sequences of registry operations\<close>

text \<open>
  The operations on the registry: the methods, and the timer of a retirement firing,
  which runs \<open>removeByConnectionIDAsString\<close>. \<open>step\<close> keeps the registry an operation
  leaves and drops its calls.
\<close>

datatype op =
    OpAdd ConnectionID packetHandler
  | OpAddWithResetToken ConnectionID packetHandler token
  | OpRemove ConnectionID
  | OpRetire ConnectionID
  | OpRetireFired ConnectionID
  | OpSetServer "unknownPacketHandler option"
  | OpCloseServer
  | OpClose error

fun step :: "op \<Rightarrow> packetHandlerMap \<Rightarrow> packetHandlerMap" where
  "step (OpAdd cid hdl) h = Add cid hdl h"
| "step (OpAddWithResetToken cid hdl tok) h = AddWithResetToken cid hdl tok h"
| "step (OpRemove cid) h = Remove cid h"
| "step (OpRetire cid) h = fst (Retire cid h)"
| "step (OpRetireFired cid) h = removeByConnectionIDAsString cid h"
| "step (OpSetServer s) h = SetServer s h"
| "step OpCloseServer h = fst (CloseServer h)"
| "step (OpClose e) h = fst (snd (close e h))"

fun run :: "op list \<Rightarrow> packetHandlerMap \<Rightarrow> packetHandlerMap" where
  "run [] h = h"
| "run (x # xs) h = run xs (step x h)"

text \<open>
  The invariant of the reset-token index as the specification words it: every token of
  the index has exactly one entry of \<open>handlers\<close> whose \<open>resetToken\<close> is that token.
\<close>

definition tokenOwners :: "packetHandlerMap \<Rightarrow> token \<Rightarrow> (ConnectionID \<times> packetHandlerEntry) list" where
  "tokenOwners h tok = filter (\<lambda>(cid, e). resetToken e = Some tok) (handlers h)"

definition tokensOwned :: "packetHandlerMap \<Rightarrow> bool" where
  "tokensOwned h = list_all (\<lambda>(tok, hdl). length (tokenOwners h tok) = 1) (resetTokens h)"

text \<open>
  An operation is \<open>careful\<close> when it does not overwrite an entry that carries a token and
  does not register a token that is already in the index; a sequence is careful when each
  of its operations is, in the registry it meets.
\<close>

fun careful :: "op \<Rightarrow> packetHandlerMap \<Rightarrow> bool" where
  "careful (OpAdd cid hdl) h =
     (case map_of (handlers h) cid of None \<Rightarrow> True | Some e \<Rightarrow> resetToken e = None)"
| "careful (OpAddWithResetToken cid hdl tok) h =
     ((case map_of (handlers h) cid of None \<Rightarrow> True | Some e \<Rightarrow> resetToken e = None)
      \<and> map_of (resetTokens h) tok = None)"
| "careful x h = True"

fun carefulRun :: "op list \<Rightarrow> packetHandlerMap \<Rightarrow> bool" where
  "carefulRun [] h = True"
| "carefulRun (x # xs) h = (careful x h \<and> carefulRun xs (step x h))"

text \<open>
  The invariant that careful sequences maintain, on the maps rather than on the lists:
  the keys of \<open>handlers\<close> are distinct, every token of the index has an entry that carries
  it together with the indexed handler, every token carried by an entry is in the index
  with the handler of that entry, and no two entries carry the same token.
\<close>

definition tokenInv :: "packetHandlerMap \<Rightarrow> bool" where
  "tokenInv h \<longleftrightarrow>
     distinct (map fst (handlers h)) \<and>
     (\<forall>tok hdl. map_of (resetTokens h) tok = Some hdl \<longrightarrow>
        (\<exists>cid. map_of (handlers h) cid = Some \<lparr> handler = hdl, resetToken = Some tok \<rparr>)) \<and>
     (\<forall>cid e tok. map_of (handlers h) cid = Some e \<and> resetToken e = Some tok \<longrightarrow>
        map_of (resetTokens h) tok = Some (handler e)) \<and>
     (\<forall>cid cid' e e' tok.
        map_of (handlers h) cid = Some e \<and> map_of (handlers h) cid' = Some e' \<and>
        resetToken e = Some tok \<and> resetToken e' = Some tok \<longrightarrow> cid = cid')"

text \<open>The connection IDs under which a handler is registered.\<close>

definition idsOf :: "packetHandlerMap \<Rightarrow> packetHandler \<Rightarrow> ConnectionID list" where
  "idsOf h hdl = map fst (filter (\<lambda>(cid, e). handler e = hdl) (handlers h))"

text \<open>
  What one iteration of the receiver loop on a datagram calls, and the read locks it
  leaves held.
\<close>

definition iteration :: "wire \<Rightarrow> protocol \<Rightarrow> packetHandlerMap \<Rightarrow> readResult \<Rightarrow> event list" where
  "iteration w p h x =
     (case x of
        Datagram addr dgram now \<Rightarrow>
          (case handlePacket w p now addr (take (MaxReceivePacketSize p) dgram) h of
             (Returns (Some err), tr) \<Rightarrow> tr @ [Debugf addr err]
           | (_, tr) \<Rightarrow> tr)
      | ReadError err \<Rightarrow> [])"

definition leaked :: "wire \<Rightarrow> protocol \<Rightarrow> packetHandlerMap \<Rightarrow> readResult \<Rightarrow> nat" where
  "leaked w p h x =
     (case x of
        Datagram addr dgram now \<Rightarrow> handlePacketLocks w p (take (MaxReceivePacketSize p) dgram) h
      | ReadError err \<Rightarrow> 0)"

fun isDatagram :: "readResult \<Rightarrow> bool" where
  "isDatagram (Datagram addr dgram now) = True"
| "isDatagram (ReadError err) = False"

section \<open>Properties\<close>

subsection \<open>Auxiliary facts about the dispatcher\<close>

lemmas toy_defs =
  toyWire_def toyParse_def toyParseInvariantHeader_def toyProtocol_def
  sessA_def sessB_def srv0_def tokA_def emptyMap_def newPacketHandlerMap_def

lemma drop_unread: "drop (length dat - (length dat - pos')) dat = drop pos' dat"
  by (cases "pos' \<le> length dat") simp_all

lemma handlePacket_routed:
  assumes "ParseInvariantHeader w dat (connIDLen h) = Inr (iHdr, pos)"
      and "route p dat h iHdr = Inr (sentBy, version, tgt)"
  shows "handlePacket w p now addr dat h = parseAndDeliver w now addr dat iHdr pos sentBy version tgt"
  using assms by (simp add: handlePacket_def)

lemma route_found:
  assumes "map_of (handlers h) (DestConnectionID iHdr) = Some e"
  shows "route p dat h iHdr =
           Inr (Opposite (GetPerspective (handler e)), GetVersion (handler e), ToHandler (handler e))"
  using assms by (simp add: route_def)

lemma parseAndDeliver_error:
  assumes "Parse w iHdr dat pos sentBy version = Inl err"
  shows "parseAndDeliver w now addr dat iHdr pos sentBy version tgt = (Returns (Some (ErrParsingHeader err)), [])"
  using assms by (simp add: parseAndDeliver_def)

lemma parseAndDeliver_short:
  assumes "Parse w iHdr dat pos sentBy version = Inr (hdr, pos')"
      and "\<not> IsLongHeader hdr"
  shows "parseAndDeliver w now addr dat iHdr pos sentBy version tgt =
           (Returns None, [HandlePacket tgt \<lparr> remoteAddr = addr, header = hdr\<lparr> Raw := take pos' dat \<rparr>,
                             data = drop pos' dat, rcvTime = now \<rparr>])"
proof -
  have "take (length dat - (length dat - pos')) dat = take pos' dat"
    by (cases "pos' \<le> length dat") simp_all
  with assms show ?thesis by (simp add: parseAndDeliver_def Let_def drop_unread)
qed

lemma parseAndDeliver_long:
  assumes "Parse w iHdr dat pos sentBy version = Inr (hdr, pos')"
      and "IsLongHeader hdr"
  shows "parseAndDeliver w now addr dat iHdr pos sentBy version tgt =
           (if Length hdr < PacketNumberLen hdr then
              (Returns (Some (ErrLengthShorterThanPacketNumber (Length hdr) (PacketNumberLen hdr))), [])
            else if (length dat - pos') + PacketNumberLen hdr < Length hdr then
              (Returns (Some (ErrLengthSmallerThanExpected ((length dat - pos') + PacketNumberLen hdr) (Length hdr))), [])
            else
              (Returns None, [HandlePacket tgt \<lparr> remoteAddr = addr, header = hdr\<lparr> Raw := take pos' dat \<rparr>,
                             data = take (Length hdr - PacketNumberLen hdr) (drop pos' dat), rcvTime = now \<rparr>]))"
proof -
  have "take (length dat - (length dat - pos')) dat = take pos' dat"
    by (cases "pos' \<le> length dat") simp_all
  with assms show ?thesis by (simp add: parseAndDeliver_def Let_def drop_unread)
qed

subsection \<open>Routing to a registered handler\<close>

text \<open>
  C1. If the destination connection ID of a datagram is registered (by \<open>Add\<close>, say) and
  still in \<open>handlers\<close> with entry \<open>e\<close>, then \<open>handlePacket\<close> calls nobody but the handler of
  \<open>e\<close>: no other handler and not the server. It delivers the packet to that handler,
  once, when the full header parses and, for a long header, the declared length is
  consistent; when the full parse fails or the length is inconsistent it returns an error
  and delivers nothing.
\<close>

theorem registered_id_routes_to_its_handler:
  assumes "ParseInvariantHeader w dat (connIDLen h) = Inr (iHdr, pos)"
      and "map_of (handlers h) (DestConnectionID iHdr) = Some e"
  shows "(\<forall>ev \<in> set (snd (handlePacket w p now addr dat h)).
            \<exists>pkt. ev = HandlePacket (ToHandler (handler e)) pkt)
       \<and> (\<forall>hdr pos'.
            Parse w iHdr dat pos (Opposite (GetPerspective (handler e))) (GetVersion (handler e))
              = Inr (hdr, pos') \<and>
            (IsLongHeader hdr \<longrightarrow>
               PacketNumberLen hdr \<le> Length hdr \<and>
               Length hdr \<le> (length dat - pos') + PacketNumberLen hdr) \<longrightarrow>
            (\<exists>pkt. handlePacket w p now addr dat h =
                     (Returns None, [HandlePacket (ToHandler (handler e)) pkt])))
       \<and> (\<forall>hdr pos'.
            Parse w iHdr dat pos (Opposite (GetPerspective (handler e))) (GetVersion (handler e))
              = Inr (hdr, pos') \<and> IsLongHeader hdr \<and>
            (Length hdr < PacketNumberLen hdr \<or>
             (length dat - pos') + PacketNumberLen hdr < Length hdr) \<longrightarrow>
            (\<exists>err. handlePacket w p now addr dat h = (Returns (Some err), [])))
       \<and> (\<forall>perr.
            Parse w iHdr dat pos (Opposite (GetPerspective (handler e))) (GetVersion (handler e))
              = Inl perr \<longrightarrow>
            handlePacket w p now addr dat h = (Returns (Some (ErrParsingHeader perr)), []))"
proof -
  let ?sentBy = "Opposite (GetPerspective (handler e))"
  let ?version = "GetVersion (handler e)"
  let ?tgt = "ToHandler (handler e)"
  have hp: "handlePacket w p now addr dat h = parseAndDeliver w now addr dat iHdr pos ?sentBy ?version ?tgt"
    using assms by (simp add: handlePacket_routed route_found)
  show ?thesis
  proof (cases "Parse w iHdr dat pos ?sentBy ?version")
    case (Inl perr)
    then show ?thesis by (simp add: hp parseAndDeliver_error)
  next
    case (Inr res)
    obtain hdr pos' where res: "res = (hdr, pos')" by (cases res)
    show ?thesis
    proof (cases "IsLongHeader hdr")
      case True
      with Inr res show ?thesis by (auto simp: hp parseAndDeliver_long)
    next
      case False
      with Inr res show ?thesis by (simp add: hp parseAndDeliver_short)
    qed
  qed
qed

theorem registered_id_routes_to_its_handler_witness:
  "map_of (handlers (Add [1] sessA (Add [2] sessB emptyMap))) [1]
     = Some \<lparr> handler = sessA, resetToken = None \<rparr>
   \<and> (\<exists>pkt. handlePacket toyWire toyProtocol 7 ''peer'' [0, 1, 5, 5, 9]
               (Add [1] sessA (Add [2] sessB emptyMap))
             = (Returns None, [HandlePacket (ToHandler sessA) pkt]))"
proof -
  let ?h = "Add [1] sessA (Add [2] sessB emptyMap)"
  let ?dat = "[0, 1, 5, 5, 9] :: byte list"
  let ?iHdr = "\<lparr> IsLongHeader = False, Version = 1, DestConnectionID = [1] \<rparr>"
  let ?e = "\<lparr> handler = sessA, resetToken = None \<rparr>"
  let ?hdr = "\<lparr> IsLongHeader = False, Version = 1, DestConnectionID = [1],
                Raw = [], Length = 5, PacketNumberLen = 5 \<rparr>"
  have a1: "ParseInvariantHeader toyWire ?dat (connIDLen ?h) = Inr (?iHdr, 2)"
    by (simp add: Add_def toy_defs)
  have a2: "map_of (handlers ?h) (DestConnectionID ?iHdr) = Some ?e"
    by (simp add: Add_def toy_defs)
  have a3: "Parse toyWire ?iHdr ?dat 2 (Opposite (GetPerspective (handler ?e))) (GetVersion (handler ?e))
              = Inr (?hdr, 4)"
    by (simp add: toy_defs)
  have a4: "IsLongHeader ?hdr \<longrightarrow>
              PacketNumberLen ?hdr \<le> Length ?hdr \<and> Length ?hdr \<le> (length ?dat - 4) + PacketNumberLen ?hdr"
    by simp
  from registered_id_routes_to_its_handler [OF a1 a2, of toyProtocol 7 "''peer''"] a3 a4
  have "\<exists>pkt. handlePacket toyWire toyProtocol 7 ''peer'' ?dat ?h
               = (Returns None, [HandlePacket (ToHandler (handler ?e)) pkt])"
    by blast
  with a2 show ?thesis by simp
qed

text \<open>
  Delivery is not unconditional: this long-header datagram is addressed to the registered
  ID \<open>[1]\<close> and its header parses, but it declares 10 bytes where 3 follow, and the handler
  receives nothing.
\<close>

theorem registered_id_counterexample:
  "handlePacket toyWire toyProtocol 7 ''peer'' [128, 1, 10, 1, 0, 0, 0] (Add [1] sessA emptyMap)
     = (Returns (Some (ErrLengthSmallerThanExpected 4 10)), [])"
  by (simp add: handlePacket_def route_def parseAndDeliver_def Add_def toy_defs)

subsection \<open>Stateless reset\<close>

text \<open>
  C4. Let the reset-token index map \<open>tok\<close> to \<open>sess\<close>, as it does after
  \<open>AddWithResetToken cid sess tok\<close>. For a short-header datagram whose destination
  connection ID is not in \<open>handlers\<close>, whose length is at least \<open>MinStatelessResetSize\<close> and
  whose last 16 bytes are \<open>tok\<close>, \<open>handlePacket\<close> calls \<open>destroy\<close> on \<open>sess\<close> once, with the
  stateless-reset error, calls nothing else, and returns \<open>nil\<close>. The full header parser
  is not consulted: the result is the same for every parser \<open>q\<close>.
\<close>

theorem stateless_reset_destroys_session:
  assumes "ParseInvariantHeader w dat (connIDLen h) = Inr (iHdr, pos)"
      and "\<not> IsLongHeader iHdr"
      and "map_of (handlers h) (DestConnectionID iHdr) = None"
      and "MinStatelessResetSize p \<le> length dat"
      and "length tok = 16"
      and "drop (length dat - 16) dat = tok"
      and "map_of (resetTokens h) tok = Some sess"
  shows "handlePacket (w\<lparr> Parse := q \<rparr>) p now addr dat h = (Returns None, [Destroy sess ErrStatelessReset])
       \<and> map_of (resetTokens (AddWithResetToken cid sess tok h0)) tok = Some sess"
proof -
  have "length (drop (length dat - 16) dat) = 16"
    using assms(5,6) by simp
  then have "\<not> length dat < 16" by simp
  then have "handlePacket (w\<lparr> Parse := q \<rparr>) p now addr dat h = (Returns None, [Destroy sess ErrStatelessReset])"
    using assms by (simp add: handlePacket_def route_def)
  moreover have "map_of (resetTokens (AddWithResetToken cid sess tok h0)) tok = Some sess"
    by (simp add: AddWithResetToken_def update_conv')
  ultimately show ?thesis by simp
qed

theorem stateless_reset_destroys_session_witness:
  "handlePacket toyWire toyProtocol 7 ''peer''
     [0, 1, 0, 0, 0, 0, 0, 0, 0, 0, 0, 0, 0, 0, 0, 0, 0, 0, 0, 0, 0, 0, 0,
      1, 2, 3, 4, 5, 6, 7, 8, 9, 10, 11, 12, 13, 14, 15, 16]
     (AddWithResetToken [9] sessA tokA emptyMap)
   = (Returns None, [Destroy sessA ErrStatelessReset])"
proof -
  let ?h = "AddWithResetToken [9] sessA tokA emptyMap"
  let ?dat = "[0, 1, 0, 0, 0, 0, 0, 0, 0, 0, 0, 0, 0, 0, 0, 0, 0, 0, 0, 0, 0, 0, 0,
      1, 2, 3, 4, 5, 6, 7, 8, 9, 10, 11, 12, 13, 14, 15, 16] :: byte list"
  let ?iHdr = "\<lparr> IsLongHeader = False, Version = 1, DestConnectionID = [1] \<rparr>"
  have a1: "ParseInvariantHeader toyWire ?dat (connIDLen ?h) = Inr (?iHdr, 2)"
    by (simp add: AddWithResetToken_def toy_defs)
  have a2: "\<not> IsLongHeader ?iHdr" by simp
  have a3: "map_of (handlers ?h) (DestConnectionID ?iHdr) = None"
    by (simp add: AddWithResetToken_def toy_defs)
  have a4: "MinStatelessResetSize toyProtocol \<le> length ?dat"
    by (simp add: toy_defs)
  have a5: "length tokA = 16" by (simp add: toy_defs)
  have a6: "drop (length ?dat - 16) ?dat = tokA" by (simp add: toy_defs)
  have a7: "map_of (resetTokens ?h) tokA = Some sessA"
    by (simp add: AddWithResetToken_def toy_defs)
  have "toyWire\<lparr> Parse := Parse toyWire \<rparr> = toyWire" by simp
  with stateless_reset_destroys_session [OF a1 a2 a3 a4 a5 a6 a7, of "Parse toyWire" 7 "''peer''"]
  show ?thesis by simp
qed

text \<open>
  C10. For a short-header datagram whose destination connection ID is not in \<open>handlers\<close>
  and whose length is below \<open>MinStatelessResetSize\<close>, \<open>handlePacket\<close> returns the
  unknown-connection-ID error and calls nothing: no handler is destroyed and nobody
  receives the packet. The reset-token index is not consulted: the result is the same
  for every index \<open>rt\<close>, also one that holds the last 16 bytes of the datagram.
\<close>

theorem short_header_below_min_size:
  assumes "ParseInvariantHeader w dat (connIDLen h) = Inr (iHdr, pos)"
      and "\<not> IsLongHeader iHdr"
      and "map_of (handlers h) (DestConnectionID iHdr) = None"
      and "length dat < MinStatelessResetSize p"
  shows "handlePacket w p now addr dat h =
           (Returns (Some (ErrShortHeaderUnexpectedConnID (DestConnectionID iHdr))), [])
       \<and> handlePacket w p now addr dat (h\<lparr> resetTokens := rt \<rparr>) = handlePacket w p now addr dat h"
  using assms by (simp add: handlePacket_def route_def)

theorem short_header_below_min_size_witness:
  "drop (length [0, 1, 1, 2, 3, 4, 5, 6, 7, 8, 9, 10, 11, 12, 13, 14, 15, 16 :: byte] - 16)
        [0, 1, 1, 2, 3, 4, 5, 6, 7, 8, 9, 10, 11, 12, 13, 14, 15, 16] = tokA
   \<and> map_of (resetTokens (AddWithResetToken [9] sessA tokA emptyMap)) tokA = Some sessA
   \<and> handlePacket toyWire toyProtocol 7 ''peer''
        [0, 1, 1, 2, 3, 4, 5, 6, 7, 8, 9, 10, 11, 12, 13, 14, 15, 16]
        (AddWithResetToken [9] sessA tokA emptyMap)
      = (Returns (Some (ErrShortHeaderUnexpectedConnID [1])), [])"
proof -
  let ?h = "AddWithResetToken [9] sessA tokA emptyMap"
  let ?dat = "[0, 1, 1, 2, 3, 4, 5, 6, 7, 8, 9, 10, 11, 12, 13, 14, 15, 16] :: byte list"
  let ?iHdr = "\<lparr> IsLongHeader = False, Version = 1, DestConnectionID = [1] \<rparr>"
  have a1: "ParseInvariantHeader toyWire ?dat (connIDLen ?h) = Inr (?iHdr, 2)"
    by (simp add: AddWithResetToken_def toy_defs)
  have a2: "\<not> IsLongHeader ?iHdr" by simp
  have a3: "map_of (handlers ?h) (DestConnectionID ?iHdr) = None"
    by (simp add: AddWithResetToken_def toy_defs)
  have a4: "length ?dat < MinStatelessResetSize toyProtocol"
    by (simp add: toy_defs)
  have b1: "drop (length ?dat - 16) ?dat = tokA" by (simp add: toy_defs)
  have b2: "map_of (resetTokens ?h) tokA = Some sessA"
    by (simp add: AddWithResetToken_def toy_defs)
  from short_header_below_min_size [OF a1 a2 a3 a4, of 7 "''peer''"]
  have c: "handlePacket toyWire toyProtocol 7 ''peer'' ?dat ?h
             = (Returns (Some (ErrShortHeaderUnexpectedConnID [1])), [])"
    by simp
  show ?thesis by (rule conjI [OF b1 conjI [OF b2 c]])
qed

subsection \<open>The declared length of a long-header packet\<close>

text \<open>
  C5. Take a packet that has been routed (to a handler or to the server) and whose full
  header parses as a long header with declared length \<open>L\<close> and packet-number length \<open>n\<close>,
  leaving \<open>R\<close> unread bytes. If \<open>n \<le> L \<le> R + n\<close>, the target receives exactly the first
  \<open>L - n\<close> unread bytes. If \<open>L < n\<close>, or if \<open>R + n < L\<close>, \<open>handlePacket\<close> returns a length
  error and delivers nothing.
\<close>

theorem long_header_declared_length:
  assumes "ParseInvariantHeader w dat (connIDLen h) = Inr (iHdr, pos)"
      and "route p dat h iHdr = Inr (sentBy, version, tgt)"
      and "Parse w iHdr dat pos sentBy version = Inr (hdr, pos')"
      and "IsLongHeader hdr"
  shows "(PacketNumberLen hdr \<le> Length hdr \<and>
          Length hdr \<le> (length dat - pos') + PacketNumberLen hdr \<longrightarrow>
            (\<exists>pkt. handlePacket w p now addr dat h = (Returns None, [HandlePacket tgt pkt]) \<and>
                   data pkt = take (Length hdr - PacketNumberLen hdr) (drop pos' dat) \<and>
                   length (data pkt) = Length hdr - PacketNumberLen hdr))
       \<and> (Length hdr < PacketNumberLen hdr \<longrightarrow>
            handlePacket w p now addr dat h =
              (Returns (Some (ErrLengthShorterThanPacketNumber (Length hdr) (PacketNumberLen hdr))), []))
       \<and> (PacketNumberLen hdr \<le> Length hdr \<and>
          (length dat - pos') + PacketNumberLen hdr < Length hdr \<longrightarrow>
            handlePacket w p now addr dat h =
              (Returns (Some (ErrLengthSmallerThanExpected
                                ((length dat - pos') + PacketNumberLen hdr) (Length hdr))), []))"
proof -
  have hp: "handlePacket w p now addr dat h = parseAndDeliver w now addr dat iHdr pos sentBy version tgt"
    using assms(1,2) by (rule handlePacket_routed)
  show ?thesis
    unfolding hp parseAndDeliver_long [OF assms(3,4)] by auto
qed

theorem long_header_declared_length_witness:
  "(\<exists>pkt. handlePacket toyWire toyProtocol 7 ''peer'' [128, 1, 3, 1, 7, 8, 9] (SetServer (Some srv0) emptyMap)
            = (Returns None, [HandlePacket (ToServer srv0) pkt]) \<and> data pkt = [7, 8])
   \<and> handlePacket toyWire toyProtocol 7 ''peer'' [128, 1, 10, 1, 7, 8, 9] (SetServer (Some srv0) emptyMap)
       = (Returns (Some (ErrLengthSmallerThanExpected 4 10)), [])
   \<and> handlePacket toyWire toyProtocol 7 ''peer'' [128, 1, 1, 2, 7, 8, 9] (SetServer (Some srv0) emptyMap)
       = (Returns (Some (ErrLengthShorterThanPacketNumber 1 2)), [])"
proof -
  let ?h = "SetServer (Some srv0) emptyMap"
  let ?iHdr = "\<lparr> IsLongHeader = True, Version = 1, DestConnectionID = [1] \<rparr>"
  let ?hdr = "\<lambda>l n. \<lparr> IsLongHeader = True, Version = 1, DestConnectionID = [1],
                Raw = [], Length = l, PacketNumberLen = n \<rparr>"
  have a1: "ParseInvariantHeader toyWire (128 # 1 # rest) (connIDLen ?h) = Inr (?iHdr, 2)" for rest
    by (simp add: SetServer_def toy_defs)
  have a2: "route toyProtocol dat ?h ?iHdr = Inr (PerspectiveClient, 1, ToServer srv0)" for dat
    by (simp add: route_def SetServer_def toy_defs)
  have a3: "Parse toyWire ?iHdr [128, 1, l, n, 7, 8, 9] 2 PerspectiveClient 1
              = Inr (?hdr (unat l) (unat n), 4)" for l n
    by (simp add: toy_defs)
  have a4: "IsLongHeader (?hdr l n)" for l n by simp
  note t1 = long_header_declared_length [OF a1 a2 a3 [of 3 1] a4, of 7 "''peer''"]
  note t2 = long_header_declared_length [OF a1 a2 a3 [of 10 1] a4, of 7 "''peer''"]
  note t3 = long_header_declared_length [OF a1 a2 a3 [of 1 2] a4, of 7 "''peer''"]
  from t1 have "\<exists>pkt. handlePacket toyWire toyProtocol 7 ''peer'' [128, 1, 3, 1, 7, 8, 9] ?h
            = (Returns None, [HandlePacket (ToServer srv0) pkt]) \<and> data pkt = [7, 8]"
    by auto
  moreover from t2 have "handlePacket toyWire toyProtocol 7 ''peer'' [128, 1, 10, 1, 7, 8, 9] ?h
       = (Returns (Some (ErrLengthSmallerThanExpected 4 10)), [])"
    by simp
  moreover from t3 have "handlePacket toyWire toyProtocol 7 ''peer'' [128, 1, 1, 2, 7, 8, 9] ?h
       = (Returns (Some (ErrLengthShorterThanPacketNumber 1 2)), [])"
    by simp
  ultimately show ?thesis by blast
qed

text \<open>
  The bound that decides is \<open>R + n\<close>, not \<open>R\<close>: here \<open>L = 6\<close>, \<open>n = 2\<close> and \<open>R = 5 < L\<close>, and
  the handler receives 4 bytes.
\<close>

theorem long_header_length_counterexample:
  "Parse toyWire \<lparr> IsLongHeader = True, Version = 1, DestConnectionID = [1] \<rparr>
       [128, 1, 6, 2, 0, 0, 0, 0, 0] 2 PerspectiveClient 1
     = Inr (\<lparr> IsLongHeader = True, Version = 1, DestConnectionID = [1],
              Raw = [], Length = 6, PacketNumberLen = 2 \<rparr>, 4)
   \<and> length [128, 1, 6, 2, 0, 0, 0, 0, 0 :: byte] - 4 < 6
   \<and> handlePacket toyWire toyProtocol 7 ''peer'' [128, 1, 6, 2, 0, 0, 0, 0, 0] (Add [1] sessA emptyMap)
     = (Returns None,
        [HandlePacket (ToHandler sessA)
           \<lparr> remoteAddr = ''peer'',
             header = \<lparr> IsLongHeader = True, Version = 1, DestConnectionID = [1],
                        Raw = [128, 1, 6, 2], Length = 6, PacketNumberLen = 2 \<rparr>,
             data = [0, 0, 0, 0], rcvTime = 7 \<rparr>])"
  by (simp add: handlePacket_def route_def parseAndDeliver_def Add_def toy_defs)

subsection \<open>Auxiliary facts about the registry\<close>

lemma filter_key_distinct:
  "distinct (map fst xs) \<Longrightarrow>
   length (filter (\<lambda>(c, en). c = cid \<and> P en) xs) =
     (if \<exists>en. map_of xs cid = Some en \<and> P en then 1 else 0)"
proof (induction xs)
  case Nil
  then show ?case by simp
next
  case (Cons a xs)
  obtain c en where a: "a = (c, en)" by (cases a)
  from Cons.prems a have notin: "c \<notin> fst ` set xs" and d: "distinct (map fst xs)" by auto
  from notin have none: "map_of xs c = None" by (simp add: map_of_eq_None_iff)
  show ?case
  proof (cases "c = cid")
    case True
    with none have "filter (\<lambda>(c, en). c = cid \<and> P en) xs = []"
      using notin by (auto simp: filter_empty_conv image_iff)
    with True a show ?thesis by simp
  next
    case False
    with a Cons.IH [OF d] show ?thesis by simp
  qed
qed

lemma unique_owner:
  assumes d: "distinct (map fst xs)"
      and own: "map_of xs cid = Some e" "P e"
      and uniq: "\<And>c e'. map_of xs c = Some e' \<Longrightarrow> P e' \<Longrightarrow> c = cid"
  shows "length (filter (\<lambda>(c, en). P en) xs) = 1"
proof -
  have "filter (\<lambda>(c, en). P en) xs = filter (\<lambda>(c, en). c = cid \<and> P en) xs"
  proof (rule filter_cong [OF refl])
    fix x assume x: "x \<in> set xs"
    obtain c en where xe: "x = (c, en)" by (cases x)
    from x xe d have "map_of xs c = Some en" by simp
    with uniq have "P en \<Longrightarrow> c = cid" by blast
    with xe show "(case x of (c, en) \<Rightarrow> P en) = (case x of (c, en) \<Rightarrow> c = cid \<and> P en)"
      by auto
  qed
  with filter_key_distinct [OF d, of cid P] own show ?thesis by auto
qed

lemma length_idsOf:
  "length (idsOf h x) = length (filter (\<lambda>(cid, en). handler en = x) (handlers h))"
  by (simp add: idsOf_def)

lemma idsOf_registered:
  assumes "distinct (map fst (handlers h))"
  shows "set (idsOf h x) = {cid. \<exists>en. map_of (handlers h) cid = Some en \<and> handler en = x}"
    and "distinct (idsOf h x)"
proof -
  show "set (idsOf h x) = {cid. \<exists>en. map_of (handlers h) cid = Some en \<and> handler en = x}"
    using assms by (auto simp: idsOf_def image_iff dest: map_of_SomeD)
  show "distinct (idsOf h x)"
    unfolding idsOf_def using assms by (simp add: distinct_map_filter)
qed

lemma step_keeps_distinct:
  "distinct (map fst (handlers h)) \<Longrightarrow> distinct (map fst (handlers (step x h)))"
  by (cases x)
     (simp_all add: Add_def AddWithResetToken_def Remove_def removeByConnectionIDAsString_def
        Retire_def SetServer_def CloseServer_def close_def Let_def distinct_update distinct_delete
        split: option.splits)

lemma run_keeps_distinct:
  "distinct (map fst (handlers h)) \<Longrightarrow> distinct (map fst (handlers (run ops h)))"
  by (induction ops arbitrary: h) (simp_all add: step_keeps_distinct)

subsection \<open>The reset-token index\<close>

lemma tokenInv_new: "tokenInv (newPacketHandlerMap p n)"
  by (simp add: tokenInv_def newPacketHandlerMap_def)

lemma tokenInv_Add:
  assumes inv: "tokenInv h" and c: "careful (OpAdd cid hdl) h"
  shows "tokenInv (Add cid hdl h)"
proof -
  let ?m = "map_of (handlers h)"
  let ?t = "map_of (resetTokens h)"
  let ?new = "\<lparr> handler = hdl, resetToken = None \<rparr>"
  have m': "map_of (handlers (Add cid hdl h)) = ?m(cid \<mapsto> ?new)"
    by (simp add: Add_def update_conv')
  have t': "resetTokens (Add cid hdl h) = resetTokens h" by (simp add: Add_def)
  have notok: "resetToken e = None" if "?m cid = Some e" for e
    using c that by simp
  from inv have I0: "distinct (map fst (handlers h))"
    and I1: "\<And>tok x. ?t tok = Some x \<Longrightarrow> \<exists>c. ?m c = Some \<lparr> handler = x, resetToken = Some tok \<rparr>"
    and I2: "\<And>c e tok. ?m c = Some e \<Longrightarrow> resetToken e = Some tok \<Longrightarrow> ?t tok = Some (handler e)"
    and I3: "\<And>c c' e e' tok. ?m c = Some e \<Longrightarrow> ?m c' = Some e' \<Longrightarrow>
               resetToken e = Some tok \<Longrightarrow> resetToken e' = Some tok \<Longrightarrow> c = c'"
    unfolding tokenInv_def by blast+
  have J0: "distinct (map fst (handlers (Add cid hdl h)))"
    using I0 by (simp add: Add_def distinct_update)
  have J1: "\<exists>c. (?m(cid \<mapsto> ?new)) c = Some \<lparr> handler = x, resetToken = Some tok \<rparr>"
    if "?t tok = Some x" for tok x
  proof -
    from I1 [OF that] obtain c0 where c0: "?m c0 = Some \<lparr> handler = x, resetToken = Some tok \<rparr>" ..
    with notok [of "\<lparr> handler = x, resetToken = Some tok \<rparr>"] have "c0 \<noteq> cid" by auto
    with c0 show ?thesis by auto
  qed
  have J2: "?t tok = Some (handler e)"
    if "(?m(cid \<mapsto> ?new)) c = Some e" "resetToken e = Some tok" for c e tok
    using that I2 by (cases "c = cid") auto
  have J3: "c = c'"
    if "(?m(cid \<mapsto> ?new)) c = Some e" "(?m(cid \<mapsto> ?new)) c' = Some e'"
       "resetToken e = Some tok" "resetToken e' = Some tok" for c c' e e' tok
    using that I3 by (cases "c = cid"; cases "c' = cid") auto
  show ?thesis
    unfolding tokenInv_def m' t' using J0 J1 J2 J3 by blast
qed

lemma tokenInv_AddWithResetToken:
  assumes inv: "tokenInv h" and c: "careful (OpAddWithResetToken cid hdl tk) h"
  shows "tokenInv (AddWithResetToken cid hdl tk h)"
proof -
  let ?m = "map_of (handlers h)"
  let ?t = "map_of (resetTokens h)"
  let ?new = "\<lparr> handler = hdl, resetToken = Some tk \<rparr>"
  have m': "map_of (handlers (AddWithResetToken cid hdl tk h)) = ?m(cid \<mapsto> ?new)"
    by (simp add: AddWithResetToken_def update_conv')
  have t': "map_of (resetTokens (AddWithResetToken cid hdl tk h)) = ?t(tk \<mapsto> hdl)"
    by (simp add: AddWithResetToken_def update_conv')
  have notok: "resetToken e = None" if "?m cid = Some e" for e
    using c that by simp
  have fresh: "?t tk = None" using c by simp
  from inv have I0: "distinct (map fst (handlers h))"
    and I1: "\<And>tok x. ?t tok = Some x \<Longrightarrow> \<exists>c. ?m c = Some \<lparr> handler = x, resetToken = Some tok \<rparr>"
    and I2: "\<And>c e tok. ?m c = Some e \<Longrightarrow> resetToken e = Some tok \<Longrightarrow> ?t tok = Some (handler e)"
    and I3: "\<And>c c' e e' tok. ?m c = Some e \<Longrightarrow> ?m c' = Some e' \<Longrightarrow>
               resetToken e = Some tok \<Longrightarrow> resetToken e' = Some tok \<Longrightarrow> c = c'"
    unfolding tokenInv_def by blast+
  have J0: "distinct (map fst (handlers (AddWithResetToken cid hdl tk h)))"
    using I0 by (simp add: AddWithResetToken_def distinct_update)
  have J1: "\<exists>c. (?m(cid \<mapsto> ?new)) c = Some \<lparr> handler = x, resetToken = Some tok \<rparr>"
    if "(?t(tk \<mapsto> hdl)) tok = Some x" for tok x
  proof (cases "tok = tk")
    case True
    with that show ?thesis by auto
  next
    case False
    with that have "?t tok = Some x" by simp
    from I1 [OF this] obtain c0 where c0: "?m c0 = Some \<lparr> handler = x, resetToken = Some tok \<rparr>" ..
    with notok [of "\<lparr> handler = x, resetToken = Some tok \<rparr>"] have "c0 \<noteq> cid" by auto
    with c0 show ?thesis by auto
  qed
  have old_ne: "tok \<noteq> tk" if "?m c = Some e" "resetToken e = Some tok" for c e tok
    using I2 [OF that] fresh by auto
  have J2: "(?t(tk \<mapsto> hdl)) tok = Some (handler e)"
    if "(?m(cid \<mapsto> ?new)) c = Some e" "resetToken e = Some tok" for c e tok
  proof (cases "c = cid")
    case True
    with that show ?thesis by auto
  next
    case False
    with that have "?m c = Some e" by simp
    with that(2) I2 old_ne show ?thesis by auto
  qed
  have J3: "c = c'"
    if "(?m(cid \<mapsto> ?new)) c = Some e" "(?m(cid \<mapsto> ?new)) c' = Some e'"
       "resetToken e = Some tok" "resetToken e' = Some tok" for c c' e e' tok
    using that by (cases "c = cid"; cases "c' = cid") (auto dest: old_ne intro: I3)
  show ?thesis
    unfolding tokenInv_def m' t' using J0 J1 J2 J3 by blast
qed

lemma tokenInv_remove:
  assumes inv: "tokenInv h"
  shows "tokenInv (removeByConnectionIDAsString cid h)"
proof (cases "map_of (handlers h) cid")
  case None
  with inv show ?thesis by (simp add: removeByConnectionIDAsString_def)
next
  case (Some en)
  let ?m = "map_of (handlers h)"
  let ?t = "map_of (resetTokens h)"
  let ?h' = "removeByConnectionIDAsString cid h"
  from inv have I0: "distinct (map fst (handlers h))"
    and I1: "\<And>tok x. ?t tok = Some x \<Longrightarrow> \<exists>c. ?m c = Some \<lparr> handler = x, resetToken = Some tok \<rparr>"
    and I2: "\<And>c e tok. ?m c = Some e \<Longrightarrow> resetToken e = Some tok \<Longrightarrow> ?t tok = Some (handler e)"
    and I3: "\<And>c c' e e' tok. ?m c = Some e \<Longrightarrow> ?m c' = Some e' \<Longrightarrow>
               resetToken e = Some tok \<Longrightarrow> resetToken e' = Some tok \<Longrightarrow> c = c'"
    unfolding tokenInv_def by blast+
  have m': "map_of (handlers ?h') = ?m(cid := None)"
    using Some by (simp add: removeByConnectionIDAsString_def Let_def delete_conv' split: option.splits)
  have J0: "distinct (map fst (handlers ?h'))"
    using Some I0 by (simp add: removeByConnectionIDAsString_def Let_def distinct_delete split: option.splits)
  show ?thesis
  proof (cases "resetToken en")
    case None
    have t': "resetTokens ?h' = resetTokens h"
      using Some None by (simp add: removeByConnectionIDAsString_def Let_def)
    have J1: "\<exists>c. (?m(cid := None)) c = Some \<lparr> handler = x, resetToken = Some tok \<rparr>"
      if "?t tok = Some x" for tok x
    proof -
      from I1 [OF that] obtain c0 where c0: "?m c0 = Some \<lparr> handler = x, resetToken = Some tok \<rparr>" ..
      with Some None have "c0 \<noteq> cid" by auto
      with c0 show ?thesis by auto
    qed
    have J2: "?t tok = Some (handler e)"
      if "(?m(cid := None)) c = Some e" "resetToken e = Some tok" for c e tok
      using that I2 by (cases "c = cid") auto
    have J3: "c = c'"
      if "(?m(cid := None)) c = Some e" "(?m(cid := None)) c' = Some e'"
         "resetToken e = Some tok" "resetToken e' = Some tok" for c c' e e' tok
      using that by (cases "c = cid"; cases "c' = cid") (auto intro: I3)
    show ?thesis
      unfolding tokenInv_def m' t' using J0 J1 J2 J3 by blast
  next
    case (Some tk)
    note tk = this
    have t': "map_of (resetTokens ?h') = ?t(tk := None)"
      using \<open>?m cid = Some en\<close> tk
      by (simp add: removeByConnectionIDAsString_def Let_def delete_conv')
    have J1: "\<exists>c. (?m(cid := None)) c = Some \<lparr> handler = x, resetToken = Some tok \<rparr>"
      if "(?t(tk := None)) tok = Some x" for tok x
    proof -
      from that have ne: "tok \<noteq> tk" and "?t tok = Some x" by (auto split: if_splits)
      from I1 [OF this(2)] obtain c0 where c0: "?m c0 = Some \<lparr> handler = x, resetToken = Some tok \<rparr>" ..
      with \<open>?m cid = Some en\<close> tk ne have "c0 \<noteq> cid" by auto
      with c0 show ?thesis by auto
    qed
    have other: "tok \<noteq> tk" if "?m c = Some e" "resetToken e = Some tok" "c \<noteq> cid" for c e tok
      using I3 [OF that(1) \<open>?m cid = Some en\<close> that(2)] tk that(3) by auto
    have J2: "(?t(tk := None)) tok = Some (handler e)"
      if "(?m(cid := None)) c = Some e" "resetToken e = Some tok" for c e tok
    proof -
      from that(1) have c: "c \<noteq> cid" "?m c = Some e" by (auto split: if_splits)
      from other [OF c(2) that(2) c(1)] I2 [OF c(2) that(2)] show ?thesis by simp
    qed
    have J3: "c = c'"
      if "(?m(cid := None)) c = Some e" "(?m(cid := None)) c' = Some e'"
         "resetToken e = Some tok" "resetToken e' = Some tok" for c c' e e' tok
      using that by (cases "c = cid"; cases "c' = cid") (auto intro: I3)
    show ?thesis
      unfolding tokenInv_def m' t' using J0 J1 J2 J3 by blast
  qed
qed

lemma tokenInv_frame:
  assumes "handlers h' = handlers h" and "resetTokens h' = resetTokens h" and "tokenInv h"
  shows "tokenInv h'"
  using assms(3) unfolding tokenInv_def assms(1,2) .

lemma tokenInv_step:
  assumes "tokenInv h" and "careful x h"
  shows "tokenInv (step x h)"
proof (cases x)
  case (OpAdd cid hdl)
  with assms show ?thesis by (simp add: tokenInv_Add)
next
  case (OpAddWithResetToken cid hdl tk)
  with assms show ?thesis by (simp add: tokenInv_AddWithResetToken)
next
  case (OpRemove cid)
  with assms show ?thesis by (simp add: Remove_def tokenInv_remove)
next
  case (OpRetire cid)
  with assms show ?thesis by (simp add: Retire_def)
next
  case (OpRetireFired cid)
  with assms show ?thesis by (simp add: tokenInv_remove)
next
  case (OpSetServer s)
  have "tokenInv (SetServer s h)"
    by (rule tokenInv_frame [OF _ _ assms(1)]) (simp_all add: SetServer_def)
  with OpSetServer show ?thesis by simp
next
  case OpCloseServer
  have "tokenInv (fst (CloseServer h))"
    by (rule tokenInv_frame [OF _ _ assms(1)]) (simp_all add: CloseServer_def Let_def)
  with OpCloseServer show ?thesis by simp
next
  case (OpClose e)
  have "tokenInv (fst (snd (close e h)))"
    by (rule tokenInv_frame [OF _ _ assms(1)]) (simp_all add: close_def Let_def)
  with OpClose show ?thesis by simp
qed

lemma tokenInv_run:
  "tokenInv h \<Longrightarrow> carefulRun ops h \<Longrightarrow> tokenInv (run ops h)"
  by (induction ops arbitrary: h) (simp_all add: tokenInv_step)

lemma tokenInv_tokensOwned:
  assumes "tokenInv h"
  shows "tokensOwned h"
proof -
  let ?m = "map_of (handlers h)"
  let ?t = "map_of (resetTokens h)"
  from assms have I0: "distinct (map fst (handlers h))"
    and I1: "\<And>tok x. ?t tok = Some x \<Longrightarrow> \<exists>c. ?m c = Some \<lparr> handler = x, resetToken = Some tok \<rparr>"
    and I3: "\<And>c c' e e' tok. ?m c = Some e \<Longrightarrow> ?m c' = Some e' \<Longrightarrow>
               resetToken e = Some tok \<Longrightarrow> resetToken e' = Some tok \<Longrightarrow> c = c'"
    unfolding tokenInv_def by blast+
  have "length (tokenOwners h tok) = 1" if "(tok, hdl) \<in> set (resetTokens h)" for tok hdl
  proof -
    from that obtain x where "?t tok = Some x"
      by (meson weak_map_of_SomeI)
    from I1 [OF this] obtain c0 where c0: "?m c0 = Some \<lparr> handler = x, resetToken = Some tok \<rparr>" ..
    have "length (filter (\<lambda>(c, en). resetToken en = Some tok) (handlers h)) = 1"
    proof (rule unique_owner [OF I0 c0])
      show "resetToken \<lparr> handler = x, resetToken = Some tok \<rparr> = Some tok" by simp
    next
      fix c e' assume "?m c = Some e'" "resetToken e' = Some tok"
      with c0 show "c = c0" by (auto intro: I3)
    qed
    then show ?thesis by (simp add: tokenOwners_def)
  qed
  then show ?thesis by (auto simp: tokensOwned_def list_all_iff)
qed

lemma Remove_deletes_token:
  assumes "map_of (handlers h) cid = Some e" and "resetToken e = Some tok"
  shows "map_of (handlers (Remove cid h)) cid = None \<and> map_of (resetTokens (Remove cid h)) tok = None"
  using assms by (simp add: Remove_def removeByConnectionIDAsString_def Let_def delete_conv')

text \<open>
  C2. Start from the empty registry and run any sequence of operations in which no \<open>Add\<close>
  or \<open>AddWithResetToken\<close> overwrites an entry that carries a token and no
  \<open>AddWithResetToken\<close> registers a token that is already in the index. Then every token of
  the index has exactly one entry of \<open>handlers\<close> whose \<open>resetToken\<close> is that token. And in
  every registry, \<open>Remove cid\<close> deletes the entry of \<open>cid\<close> and the token that entry carries
  in the same step.
\<close>

theorem careful_sequences_keep_tokens_owned:
  assumes "carefulRun ops (newPacketHandlerMap p n)"
  shows "tokensOwned (run ops (newPacketHandlerMap p n))
       \<and> (\<forall>tok hdl. map_of (resetTokens (run ops (newPacketHandlerMap p n))) tok = Some hdl \<longrightarrow>
            (\<exists>!cid. \<exists>e. map_of (handlers (run ops (newPacketHandlerMap p n))) cid = Some e \<and>
                         resetToken e = Some tok))
       \<and> (\<forall>h cid e tok. map_of (handlers h) cid = Some e \<and> resetToken e = Some tok \<longrightarrow>
            map_of (handlers (Remove cid h)) cid = None \<and>
            map_of (resetTokens (Remove cid h)) tok = None)"
proof -
  let ?s = "run ops (newPacketHandlerMap p n)"
  have inv: "tokenInv ?s"
    using tokenInv_new assms by (rule tokenInv_run)
  then have 1: "tokensOwned ?s" by (rule tokenInv_tokensOwned)
  have 2: "\<exists>!cid. \<exists>e. map_of (handlers ?s) cid = Some e \<and> resetToken e = Some tok"
    if "map_of (resetTokens ?s) tok = Some hdl" for tok hdl
  proof -
    from inv that obtain c0 where
      c0: "map_of (handlers ?s) c0 = Some \<lparr> handler = hdl, resetToken = Some tok \<rparr>"
      unfolding tokenInv_def by blast
    from inv have uniq: "\<And>c c' e e'. map_of (handlers ?s) c = Some e \<Longrightarrow>
        map_of (handlers ?s) c' = Some e' \<Longrightarrow> resetToken e = Some tok \<Longrightarrow>
        resetToken e' = Some tok \<Longrightarrow> c = c'"
      unfolding tokenInv_def by blast
    show ?thesis
    proof (rule ex1I [of _ c0])
      show "\<exists>e. map_of (handlers ?s) c0 = Some e \<and> resetToken e = Some tok"
        using c0 by simp
    next
      fix c assume "\<exists>e. map_of (handlers ?s) c = Some e \<and> resetToken e = Some tok"
      then obtain e where "map_of (handlers ?s) c = Some e" "resetToken e = Some tok" by blast
      from uniq [OF this(1) c0 this(2)] show "c = c0" by simp
    qed
  qed
  from 1 2 Remove_deletes_token show ?thesis by blast
qed

theorem careful_sequences_keep_tokens_owned_witness:
  "carefulRun [OpAddWithResetToken [1] sessA tokA, OpAdd [2] sessB, OpRemove [2]]
      (newPacketHandlerMap toyProtocol 1)
   \<and> resetTokens (run [OpAddWithResetToken [1] sessA tokA, OpAdd [2] sessB, OpRemove [2]]
        (newPacketHandlerMap toyProtocol 1)) = [(tokA, sessA)]
   \<and> tokensOwned (run [OpAddWithResetToken [1] sessA tokA, OpAdd [2] sessB, OpRemove [2]]
        (newPacketHandlerMap toyProtocol 1))"
proof -
  let ?ops = "[OpAddWithResetToken [1] sessA tokA, OpAdd [2] sessB, OpRemove [2]]"
  have a: "carefulRun ?ops (newPacketHandlerMap toyProtocol 1)"
    by (simp add: Add_def AddWithResetToken_def newPacketHandlerMap_def)
  have b: "resetTokens (run ?ops (newPacketHandlerMap toyProtocol 1)) = [(tokA, sessA)]"
    by (simp add: Add_def AddWithResetToken_def Remove_def removeByConnectionIDAsString_def
                  newPacketHandlerMap_def)
  from careful_sequences_keep_tokens_owned [OF a]
  have c: "tokensOwned (run ?ops (newPacketHandlerMap toyProtocol 1))" by blast
  show ?thesis by (rule conjI [OF a conjI [OF b c]])
qed

text \<open>
  Without the restriction the invariant fails: \<open>Add\<close> on a connection ID whose entry
  carries a token replaces the entry and leaves the token in the index.
\<close>

theorem overwrite_leaves_token_counterexample:
  "handlers (run [OpAddWithResetToken [1] sessA tokA, OpAdd [1] sessB] emptyMap)
     = [([1], \<lparr> handler = sessB, resetToken = None \<rparr>)]
   \<and> resetTokens (run [OpAddWithResetToken [1] sessA tokA, OpAdd [1] sessB] emptyMap)
     = [(tokA, sessA)]
   \<and> \<not> tokensOwned (run [OpAddWithResetToken [1] sessA tokA, OpAdd [1] sessB] emptyMap)"
  by (simp add: tokensOwned_def tokenOwners_def Add_def AddWithResetToken_def toy_defs)

subsection \<open>Shutdown\<close>

lemma count_closeLoop_Destroy:
  "count_list (closeLoop e xs) (Destroy x e') =
     (if e' = e then length (filter (\<lambda>(cid, en). handler en = x) xs) else 0)"
  by (induction xs) auto

lemma count_closeLoop_other:
  "\<forall>x e'. ev \<noteq> Destroy x e' \<Longrightarrow> count_list (closeLoop e xs) ev = 0"
  by (induction xs) auto

lemma set_closeLoop:
  "(cid, en) \<in> set xs \<Longrightarrow> Destroy (handler en) e \<in> set (closeLoop e xs)"
  by (induction xs) auto

text \<open>
  C3. On a registry that is not closed, \<open>close e\<close> returns \<open>nil\<close>, sets \<open>closed\<close> and changes
  nothing else; it calls \<open>destroy e\<close> once for every entry of \<open>handlers\<close>, so a handler
  receives as many calls as it has connection IDs (one call if it has one ID), and it
  calls \<open>closeWithError e\<close> once on the server if the slot is set. On a closed registry,
  \<open>close\<close> returns \<open>nil\<close>, calls nothing and changes nothing.
\<close>

theorem close_idempotent:
  assumes "\<not> closed h"
  shows "case close e h of (r, h1, tr) \<Rightarrow>
           r = None \<and> h1 = h\<lparr> closed := True \<rparr>
         \<and> (\<forall>x. count_list tr (Destroy x e) = length (idsOf h x))
         \<and> (\<forall>x cid. idsOf h x = [cid] \<longrightarrow> count_list tr (Destroy x e) = 1)
         \<and> (\<forall>x e'. e' \<noteq> e \<longrightarrow> count_list tr (Destroy x e') = 0)
         \<and> (\<forall>s e'. count_list tr (CloseWithError s e') = (if server h = Some s \<and> e' = e then 1 else 0))
         \<and> close e2 h1 = (None, h1, [])
         \<and> (\<forall>h'. closed h' \<longrightarrow> close e2 h' = (None, h', []))"
proof -
  let ?tr = "closeLoop e (handlers h) @ (case server h of Some s \<Rightarrow> [CloseWithError s e] | None \<Rightarrow> [])"
  have c: "close e h = (None, h\<lparr> closed := True \<rparr>, ?tr)"
    using assms by (simp add: close_def Let_def)
  have d: "count_list ?tr (Destroy x e') = (if e' = e then length (idsOf h x) else 0)" for x e'
    by (simp add: count_closeLoop_Destroy idsOf_def split: option.splits)
  have s: "count_list ?tr (CloseWithError s e') = (if server h = Some s \<and> e' = e then 1 else 0)" for s e'
    by (auto simp: count_closeLoop_other split: option.splits)
  have again: "close e2 h' = (None, h', [])" if "closed h'" for h'
    using that by (simp add: close_def)
  show ?thesis
    unfolding c using d s again by (auto simp del: count_list_append)
qed

theorem close_idempotent_witness:
  "case close (External ''read'') (SetServer (Some srv0) (Add [2] sessB (Add [1] sessA emptyMap))) of
     (r, h1, tr) \<Rightarrow>
       r = None \<and> closed h1 \<and> count_list tr (Destroy sessA (External ''read'')) = 1
     \<and> count_list tr (Destroy sessB (External ''read'')) = 1
     \<and> count_list tr (CloseWithError srv0 (External ''read'')) = 1
     \<and> close (External ''again'') h1 = (None, h1, [])"
proof -
  let ?h = "SetServer (Some srv0) (Add [2] sessB (Add [1] sessA emptyMap))"
  have a: "\<not> closed ?h" by (simp add: SetServer_def Add_def toy_defs)
  have i1: "idsOf ?h sessA = [[1]]" by (simp add: idsOf_def SetServer_def Add_def toy_defs)
  have i2: "idsOf ?h sessB = [[2]]" by (simp add: idsOf_def SetServer_def Add_def toy_defs)
  have sv: "server ?h = Some srv0" by (simp add: SetServer_def)
  show ?thesis
    using close_idempotent [OF a, of "External ''read''" "External ''again''"] i1 i2 sv
    by (simp split: prod.splits)
qed

text \<open>
  A session registered under two connection IDs is destroyed twice by one \<open>close\<close>.
\<close>

theorem close_destroys_per_entry_counterexample:
  "close (External ''read'') (Add [2] sessA (Add [1] sessA emptyMap))
     = (None, (Add [2] sessA (Add [1] sessA emptyMap))\<lparr> closed := True \<rparr>,
        [Destroy sessA (External ''read''), Destroy sessA (External ''read'')])"
  by (simp add: close_def Add_def toy_defs)

text \<open>
  C6. \<open>close e\<close> on a registry that is not closed sets \<open>closed\<close> and calls \<open>destroy e\<close> on the
  handler of every entry registered at that time. The flag is read by \<open>close\<close> only:
  on a closed registry \<open>Add\<close> and \<open>AddWithResetToken\<close> insert their entry (and token) as
  on an open one.
\<close>

theorem closed_registry_still_accepts_entries:
  "(\<not> closed h \<longrightarrow>
      (case close e h of (r, h1, tr) \<Rightarrow>
         closed h1 \<and> (\<forall>(cid, en) \<in> set (handlers h). Destroy (handler en) e \<in> set tr)))
   \<and> (closed h \<longrightarrow>
        map_of (handlers (Add cid hdl h)) cid = Some \<lparr> handler = hdl, resetToken = None \<rparr>
      \<and> map_of (handlers (AddWithResetToken cid hdl tok h)) cid
          = Some \<lparr> handler = hdl, resetToken = Some tok \<rparr>
      \<and> map_of (resetTokens (AddWithResetToken cid hdl tok h)) tok = Some hdl)"
  by (auto simp: close_def Let_def Add_def AddWithResetToken_def update_conv' set_closeLoop)

theorem closed_registry_still_accepts_entries_witness:
  "(case close (External ''read'') (Add [1] sessA emptyMap) of (r, h1, tr) \<Rightarrow>
      closed h1 \<and> Destroy sessA (External ''read'') \<in> set tr
    \<and> map_of (handlers (Add [2] sessB h1)) [2] = Some \<lparr> handler = sessB, resetToken = None \<rparr>)"
proof -
  let ?h = "Add [1] sessA emptyMap"
  let ?e = "External ''read''"
  obtain r h1 tr where c: "close ?e ?h = (r, h1, tr)" by (cases "close ?e ?h")
  have a: "\<not> closed ?h" by (simp add: Add_def toy_defs)
  have m: "([1], \<lparr> handler = sessA, resetToken = None \<rparr>) \<in> set (handlers ?h)"
    by (simp add: Add_def toy_defs)
  from closed_registry_still_accepts_entries [of ?h ?e] a c
  have 1: "closed h1" and 2: "\<forall>(cid, en) \<in> set (handlers ?h). Destroy (handler en) ?e \<in> set tr"
    by auto
  from 2 m have 3: "Destroy sessA ?e \<in> set tr" by fastforce
  from closed_registry_still_accepts_entries [of h1 ?e "[2]" sessB] 1
  have "map_of (handlers (Add [2] sessB h1)) [2] = Some \<lparr> handler = sessB, resetToken = None \<rparr>"
    by simp
  with 1 3 c show ?thesis by simp
qed

text \<open>
  After \<open>close\<close> on the empty registry, \<open>Add\<close> and \<open>AddWithResetToken\<close> still add.
\<close>

theorem add_after_close_counterexample:
  "closed (fst (snd (close (External ''read'') emptyMap)))
   \<and> handlers (fst (snd (close (External ''read'') emptyMap))) = []
   \<and> handlers (Add [1] sessA (fst (snd (close (External ''read'') emptyMap))))
       = [([1], \<lparr> handler = sessA, resetToken = None \<rparr>)]
   \<and> resetTokens (AddWithResetToken [1] sessA tokA (fst (snd (close (External ''read'') emptyMap))))
       = [(tokA, sessA)]"
  by (simp add: close_def Add_def AddWithResetToken_def toy_defs)

subsection \<open>Closing the server\<close>

lemma count_closeServerLoop_Close:
  "count_list (closeServerLoop h xs) (Close x) =
     (if GetPerspective x = PerspectiveServer
      then length (filter (\<lambda>(cid, en). handler en = x) xs) else 0)"
  by (induction xs) (auto simp: retireByConnectionIDAsString_def)

lemma count_closeServerLoop_AfterFunc:
  "count_list (closeServerLoop h xs) (AfterFunc d cid) =
     (if d = deleteRetiredSessionsAfter h
      then length (filter (\<lambda>(c, en). c = cid \<and> GetPerspective (handler en) = PerspectiveServer) xs)
      else 0)"
  by (induction xs) (auto simp: retireByConnectionIDAsString_def)

lemma closeServerLoop_no_Destroy: "Destroy x e \<notin> set (closeServerLoop h xs)"
  by (induction xs) (auto simp: retireByConnectionIDAsString_def split: if_splits)

lemma closeServerLoop_order:
  "(cid, en) \<in> set xs \<Longrightarrow> GetPerspective (handler en) = PerspectiveServer \<Longrightarrow>
   \<exists>pre post. closeServerLoop h xs =
      pre @ [Close (handler en), AfterFunc (deleteRetiredSessionsAfter h) cid] @ post"
proof (induction xs)
  case Nil
  then show ?case by simp
next
  case (Cons a xs)
  obtain c en' where a: "a = (c, en')" by (cases a)
  show ?case
  proof (cases "a = (cid, en)")
    case True
    with Cons.prems(2) have "closeServerLoop h (a # xs) =
        [] @ [Close (handler en), AfterFunc (deleteRetiredSessionsAfter h) cid] @ closeServerLoop h xs"
      by (simp add: retireByConnectionIDAsString_def)
    then show ?thesis by blast
  next
    case False
    with Cons.prems have "(cid, en) \<in> set xs" by simp
    from Cons.IH [OF this Cons.prems(2)] obtain pre post where
      ih: "closeServerLoop h xs = pre @ [Close (handler en), AfterFunc (deleteRetiredSessionsAfter h) cid] @ post"
      by blast
    show ?thesis
    proof (cases "GetPerspective (handler en') = PerspectiveServer")
      case True
      with a ih have "closeServerLoop h (a # xs) =
          (Close (handler en') # AfterFunc (deleteRetiredSessionsAfter h) c # pre)
            @ [Close (handler en), AfterFunc (deleteRetiredSessionsAfter h) cid] @ post"
        by (simp add: retireByConnectionIDAsString_def)
      then show ?thesis by blast
    next
      case False
      with a ih show ?thesis by auto
    qed
  qed
qed

lemma route_no_server:
  assumes "IsLongHeader iHdr" and "map_of (handlers h) (DestConnectionID iHdr) = None"
      and "server h = None"
  shows "route p dat h iHdr = Inl (Returns (Some (ErrUnexpectedConnID (DestConnectionID iHdr))), [])"
  using assms by (simp add: route_def)

text \<open>
  C7. \<open>CloseServer\<close> clears the server slot and changes nothing else. For every entry
  whose handler has the server perspective it calls \<open>Close\<close> on the handler and then
  retires the connection ID of the entry, once for each entry: a handler receives as
  many \<open>Close\<close> calls as it has connection IDs, and each of these IDs is retired once.
  A handler with the client perspective receives no \<open>Close\<close>, and nobody receives
  \<open>destroy\<close>. In the registry \<open>CloseServer\<close> leaves, a long-header packet with an unknown
  connection ID is dropped with the unexpected-connection-ID error.
\<close>

theorem CloseServer_closes_server_sessions:
  assumes "distinct (map fst (handlers h))"
  shows "case CloseServer h of (h1, tr) \<Rightarrow>
           h1 = h\<lparr> server := None \<rparr>
         \<and> (\<forall>x. count_list tr (Close x) =
                  (if GetPerspective x = PerspectiveServer then length (idsOf h x) else 0))
         \<and> (\<forall>cid d. count_list tr (AfterFunc d cid) =
                  (if d = deleteRetiredSessionsAfter h \<and>
                      (\<exists>en. map_of (handlers h) cid = Some en \<and>
                            GetPerspective (handler en) = PerspectiveServer)
                   then 1 else 0))
         \<and> (\<forall>cid en. map_of (handlers h) cid = Some en \<and>
                      GetPerspective (handler en) = PerspectiveServer \<longrightarrow>
                (\<exists>pre post. tr = pre @ [Close (handler en),
                                        AfterFunc (deleteRetiredSessionsAfter h) cid] @ post))
         \<and> (\<forall>x e. Destroy x e \<notin> set tr)
         \<and> (\<forall>w p now addr dat iHdr pos.
               ParseInvariantHeader w dat (connIDLen h1) = Inr (iHdr, pos) \<and> IsLongHeader iHdr \<and>
               map_of (handlers h1) (DestConnectionID iHdr) = None \<longrightarrow>
               handlePacket w p now addr dat h1 =
                 (Returns (Some (ErrUnexpectedConnID (DestConnectionID iHdr))), []))"
proof -
  let ?h1 = "h\<lparr> server := None \<rparr>"
  let ?tr = "closeServerLoop ?h1 (handlers h)"
  have c: "CloseServer h = (?h1, ?tr)" by (simp add: CloseServer_def Let_def)
  have 1: "count_list ?tr (Close x) =
             (if GetPerspective x = PerspectiveServer then length (idsOf h x) else 0)" for x
    by (simp add: count_closeServerLoop_Close idsOf_def)
  have 2: "count_list ?tr (AfterFunc d cid) =
             (if d = deleteRetiredSessionsAfter h \<and>
                 (\<exists>en. map_of (handlers h) cid = Some en \<and> GetPerspective (handler en) = PerspectiveServer)
              then 1 else 0)" for d cid
    using filter_key_distinct [OF assms, of cid "\<lambda>en. GetPerspective (handler en) = PerspectiveServer"]
    by (simp add: count_closeServerLoop_AfterFunc)
  have 3: "\<exists>pre post. ?tr = pre @ [Close (handler en), AfterFunc (deleteRetiredSessionsAfter h) cid] @ post"
    if "map_of (handlers h) cid = Some en" "GetPerspective (handler en) = PerspectiveServer" for cid en
    using closeServerLoop_order [OF map_of_SomeD [OF that(1)] that(2), of ?h1] by simp
  have 4: "Destroy x e \<notin> set ?tr" for x e by (rule closeServerLoop_no_Destroy)
  have 5: "handlePacket w p now addr dat ?h1 =
             (Returns (Some (ErrUnexpectedConnID (DestConnectionID iHdr))), [])"
    if "ParseInvariantHeader w dat (connIDLen ?h1) = Inr (iHdr, pos)" "IsLongHeader iHdr"
       "map_of (handlers ?h1) (DestConnectionID iHdr) = None" for w p now addr dat iHdr pos
    using that by (simp add: handlePacket_def route_no_server)
  show ?thesis
    unfolding c prod.case
    using 1 2 3 4 5 by blast
qed

theorem CloseServer_closes_server_sessions_witness:
  "case CloseServer (SetServer (Some srv0) (Add [2] sessB (Add [1] sessA emptyMap))) of
     (h1, tr) \<Rightarrow>
       server h1 = None
     \<and> count_list tr (Close sessA) = 1
     \<and> count_list tr (Close sessB) = 0
     \<and> count_list tr (AfterFunc 5000 [1]) = 1
     \<and> count_list tr (AfterFunc 5000 [2]) = 0
     \<and> handlePacket toyWire toyProtocol 7 ''peer'' [128, 7, 3, 1, 0, 0] h1
         = (Returns (Some (ErrUnexpectedConnID [7])), [])"
proof -
  let ?h = "SetServer (Some srv0) (Add [2] sessB (Add [1] sessA emptyMap))"
  have hs: "handlers ?h = [([1], \<lparr> handler = sessA, resetToken = None \<rparr>),
                           ([2], \<lparr> handler = sessB, resetToken = None \<rparr>)]"
    by (simp add: SetServer_def Add_def toy_defs)
  have a: "distinct (map fst (handlers ?h))" by (simp add: hs)
  have i1: "idsOf ?h sessA = [[1]]" by (simp add: idsOf_def hs) (simp add: toy_defs)
  have i2: "GetPerspective sessA = PerspectiveServer" "GetPerspective sessB = PerspectiveClient"
    by (simp_all add: toy_defs)
  have d: "deleteRetiredSessionsAfter ?h = 5000" by (simp add: SetServer_def Add_def toy_defs)
  obtain h1 tr where c: "CloseServer ?h = (h1, tr)" by (cases "CloseServer ?h")
  note t = CloseServer_closes_server_sessions [OF a, unfolded c prod.case]
  from t have f0: "h1 = ?h\<lparr> server := None \<rparr>" by blast
  from t have f1: "count_list tr (Close x) =
      (if GetPerspective x = PerspectiveServer then length (idsOf ?h x) else 0)" for x
    by blast
  from t have f2: "count_list tr (AfterFunc dl cid) =
      (if dl = deleteRetiredSessionsAfter ?h \<and>
          (\<exists>en. map_of (handlers ?h) cid = Some en \<and> GetPerspective (handler en) = PerspectiveServer)
       then 1 else 0)" for dl cid
    by blast
  from t have f5: "ParseInvariantHeader w dat (connIDLen h1) = Inr (iHdr, pos) \<Longrightarrow>
      IsLongHeader iHdr \<Longrightarrow> map_of (handlers h1) (DestConnectionID iHdr) = None \<Longrightarrow>
      handlePacket w q now addr dat h1 = (Returns (Some (ErrUnexpectedConnID (DestConnectionID iHdr))), [])"
    for w q dat now addr iHdr pos
    by blast
  have g0: "server h1 = None" by (simp add: f0)
  have g1: "count_list tr (Close sessA) = 1" by (simp add: f1 i1 i2)
  have g2: "count_list tr (Close sessB) = 0" by (simp add: f1 i2)
  have g3: "count_list tr (AfterFunc 5000 [1]) = 1" by (simp add: f2 d hs i2)
  have g4: "count_list tr (AfterFunc 5000 [2]) = 0" by (simp add: f2 d hs i2)
  have p: "ParseInvariantHeader toyWire [128, 7, 3, 1, 0, 0] (connIDLen h1)
             = Inr (\<lparr> IsLongHeader = True, Version = 1, DestConnectionID = [7] \<rparr>, 2)"
    by (simp add: f0 SetServer_def Add_def toy_defs)
  have g5: "handlePacket toyWire toyProtocol 7 ''peer'' [128, 7, 3, 1, 0, 0] h1
         = (Returns (Some (ErrUnexpectedConnID [7])), [])"
    using f5 [OF p, of toyProtocol 7 "''peer''"] by (simp add: f0 hs)
  show ?thesis
    unfolding c prod.case using g0 g1 g2 g3 g4 g5 by blast
qed

text \<open>
  A server session registered under two connection IDs receives \<open>Close\<close> twice.
\<close>

theorem CloseServer_per_entry_counterexample:
  "CloseServer (Add [2] sessA (Add [1] sessA emptyMap))
     = ((Add [2] sessA (Add [1] sessA emptyMap))\<lparr> server := None \<rparr>,
        [Close sessA, AfterFunc 5000 [1], Close sessA, AfterFunc 5000 [2]])"
  by (simp add: CloseServer_def retireByConnectionIDAsString_def Add_def toy_defs)

subsection \<open>Retirement\<close>

lemma step_keeps_delay: "deleteRetiredSessionsAfter (step x h) = deleteRetiredSessionsAfter h"
  by (cases x)
     (simp_all add: Add_def AddWithResetToken_def Remove_def removeByConnectionIDAsString_def
        Retire_def SetServer_def CloseServer_def close_def Let_def split: option.splits)

lemma run_keeps_delay: "deleteRetiredSessionsAfter (run ops h) = deleteRetiredSessionsAfter h"
  by (induction ops arbitrary: h) (simp_all add: step_keeps_delay)

text \<open>
  C9. \<open>Retire cid\<close> returns the registry unchanged and makes one call, which schedules the
  removal of \<open>cid\<close> after \<open>deleteRetiredSessionsAfter\<close>; in a registry built by
  \<open>newPacketHandlerMap\<close> that delay is \<open>RetiredConnectionIDDeleteTimeout\<close>, whatever
  operations have run since. When the removal fires for a connection ID that is not in
  \<open>handlers\<close>, for instance after \<open>Remove\<close>, it leaves the whole registry unchanged.
\<close>

theorem Retire_schedules_one_removal:
  "Retire cid h = (h, [AfterFunc (deleteRetiredSessionsAfter h) cid])
   \<and> deleteRetiredSessionsAfter (run ops (newPacketHandlerMap p n)) = RetiredConnectionIDDeleteTimeout p
   \<and> (map_of (handlers h) cid = None \<longrightarrow> removeByConnectionIDAsString cid h = h)
   \<and> removeByConnectionIDAsString cid (Remove cid h) = Remove cid h"
proof -
  have 1: "Retire cid h = (h, [AfterFunc (deleteRetiredSessionsAfter h) cid])"
    by (simp add: Retire_def retireByConnectionIDAsString_def)
  have 2: "deleteRetiredSessionsAfter (run ops (newPacketHandlerMap p n)) = RetiredConnectionIDDeleteTimeout p"
    by (simp add: run_keeps_delay) (simp add: newPacketHandlerMap_def)
  have 3: "removeByConnectionIDAsString cid h' = h'" if "map_of (handlers h') cid = None" for h'
    using that by (simp add: removeByConnectionIDAsString_def)
  have "map_of (handlers (Remove cid h)) cid = None"
    by (simp add: Remove_def removeByConnectionIDAsString_def Let_def delete_conv' split: option.splits)
  from 3 [OF this] 1 2 3 show ?thesis by blast
qed

theorem Retire_schedules_one_removal_witness:
  "Retire [1] (run [OpAdd [1] sessA, OpRemove [1]] (newPacketHandlerMap toyProtocol 1))
     = (run [OpAdd [1] sessA, OpRemove [1]] (newPacketHandlerMap toyProtocol 1), [AfterFunc 5000 [1]])
   \<and> map_of (handlers (run [OpAdd [1] sessA, OpRemove [1]] (newPacketHandlerMap toyProtocol 1))) [1] = None
   \<and> removeByConnectionIDAsString [1] (run [OpAdd [1] sessA, OpRemove [1]] (newPacketHandlerMap toyProtocol 1))
     = run [OpAdd [1] sessA, OpRemove [1]] (newPacketHandlerMap toyProtocol 1)"
proof -
  let ?s = "run [OpAdd [1] sessA, OpRemove [1]] (newPacketHandlerMap toyProtocol 1)"
  have a: "map_of (handlers ?s) [1] = None"
    by (simp add: Add_def Remove_def removeByConnectionIDAsString_def newPacketHandlerMap_def)
  note t = Retire_schedules_one_removal [of "[1]" ?s "[OpAdd [1] sessA, OpRemove [1]]" toyProtocol 1]
  from t have 1: "Retire [1] ?s = (?s, [AfterFunc 5000 [1]])" by (simp add: toyProtocol_def)
  from t a have 2: "removeByConnectionIDAsString [1] ?s = ?s" by blast
  show ?thesis by (rule conjI [OF 1 conjI [OF a 2]])
qed

subsection \<open>The receiver loop\<close>

lemma parseAndDeliver_returns:
  "\<exists>r tr. parseAndDeliver w now addr dat iHdr pos sentBy version tgt = (Returns r, tr)"
  by (auto simp: parseAndDeliver_def Let_def split: sum.splits)

lemma handlePacket_returns:
  assumes "16 \<le> MinStatelessResetSize p"
  shows "\<exists>r tr. handlePacket w p now addr dat h = (Returns r, tr)"
proof (cases "ParseInvariantHeader w dat (connIDLen h)")
  case (Inl err)
  then show ?thesis by (simp add: handlePacket_def)
next
  case (Inr res)
  obtain iHdr pos where res: "res = (iHdr, pos)" by (cases res)
  show ?thesis
  proof (cases "route p dat h iHdr")
    case (Inl fin)
    with assms have "\<exists>r tr. fin = (Returns r, tr)"
      by (auto simp: route_def split: option.splits if_splits)
    with Inr res Inl show ?thesis by (simp add: handlePacket_def)
  next
    case (Inr tgt)
    obtain sentBy version t where "tgt = (sentBy, version, t)" by (cases tgt)
    with \<open>ParseInvariantHeader w dat (connIDLen h) = Inr res\<close> res Inr show ?thesis
      using parseAndDeliver_returns by (simp add: handlePacket_def)
  qed
qed

text \<open>
  The read lock stays held exactly on the path that ends at line 199, when no panic is
  possible: the invariant header parses as a short header, no handler has its connection
  ID, and the datagram is too short for a stateless reset or its last 16 bytes are not
  a token of the index.
\<close>

lemma readLocksHeld_iff:
  assumes "16 \<le> MinStatelessResetSize p"
  shows "readLocksHeld p dat h iHdr =
           (if route p dat h iHdr =
                 Inl (Returns (Some (ErrShortHeaderUnexpectedConnID (DestConnectionID iHdr))), [])
            then 1 else 0)"
  using assms by (auto simp: readLocksHeld_def route_def split: option.splits)

lemma listen_Datagram:
  assumes "16 \<le> MinStatelessResetSize p"
  shows "listen w p (Datagram addr dgram now # rest) h readers =
           (case listen w p rest h (readers + leaked w p h (Datagram addr dgram now)) of
              (st, h', tr') \<Rightarrow> (st, h', iteration w p h (Datagram addr dgram now) @ tr'))"
proof -
  from handlePacket_returns [OF assms] obtain r tr where
    hp: "handlePacket w p now addr (take (MaxReceivePacketSize p) dgram) h = (Returns r, tr)"
    by blast
  show ?thesis
    by (cases r) (simp_all add: hp iteration_def leaked_def split: prod.splits)
qed

text \<open>
  The loop on any script of datagrams followed by a read error, when no panic is
  possible: every datagram is dispatched and every error of \<open>handlePacket\<close> is logged; at
  the read error the loop runs \<open>close\<close> and stops if no read lock was left held, and is
  blocked in \<open>close\<close>, with the registry unchanged, if one was.
\<close>

lemma listen_datagrams:
  assumes "16 \<le> MinStatelessResetSize p" and "list_all isDatagram pre"
  shows "listen w p pre h readers = (Reading, h, concat (map (iteration w p h) pre))"
  using assms(2)
proof (induction pre arbitrary: readers)
  case Nil
  then show ?case by simp
next
  case (Cons x pre)
  then obtain addr dgram now where x: "x = Datagram addr dgram now"
    by (cases x) simp_all
  from Cons have "listen w p pre h r = (Reading, h, concat (map (iteration w p h) pre))" for r
    by simp
  then show ?case by (simp add: x listen_Datagram [OF assms(1)] del: listen.simps)
qed

lemma listen_read_error:
  assumes "16 \<le> MinStatelessResetSize p" and "list_all isDatagram pre"
  shows "listen w p (pre @ ReadError err # rest) h readers =
           (if 0 < readers + sum_list (map (leaked w p h) pre)
            then (Blocked, h, concat (map (iteration w p h) pre))
            else (case close err h of
                    (r, h1, tr) \<Rightarrow> (Stopped, h1, concat (map (iteration w p h) pre) @ tr)))"
  using assms(2)
proof (induction pre arbitrary: readers)
  case Nil
  then show ?case by (simp split: prod.splits)
next
  case (Cons x pre)
  then obtain addr dgram now where x: "x = Datagram addr dgram now"
    by (cases x) simp_all
  define held where "held = sum_list (map (leaked w p h) pre)"
  define calls where "calls = concat (map (iteration w p h) pre)"
  from Cons.prems have pre: "list_all isDatagram pre" by simp
  have ih: "listen w p (pre @ ReadError err # rest) h r =
           (if 0 < r + held then (Blocked, h, calls)
            else (case close err h of (r, h1, tr) \<Rightarrow> (Stopped, h1, calls @ tr)))" for r
    unfolding held_def calls_def by (rule Cons.IH [OF pre])
  have sum: "sum_list (map (leaked w p h) (x # pre)) = leaked w p h x + held"
    and cat: "concat (map (iteration w p h) (x # pre)) = iteration w p h x @ calls"
    by (simp_all add: held_def calls_def)
  have "listen w p ((x # pre) @ ReadError err # rest) h readers =
          (case listen w p (pre @ ReadError err # rest) h (readers + leaked w p h x) of
             (st, h', tr') \<Rightarrow> (st, h', iteration w p h x @ tr'))"
    by (simp add: x listen_Datagram [OF assms(1)] del: listen.simps)
  also have "\<dots> =
          (if 0 < readers + (leaked w p h x + held) then (Blocked, h, iteration w p h x @ calls)
           else (case close err h of
                   (r, h1, tr) \<Rightarrow> (Stopped, h1, (iteration w p h x @ calls) @ tr)))"
    unfolding ih by (simp add: add.assoc split: prod.splits)
  finally show ?case unfolding sum cat .
qed

text \<open>
  The sibling path: a long-header datagram for an unknown connection ID with no server
  set is dropped at line 202, after \<open>RUnlock\<close>. The error is logged, and the read error
  that follows closes the registry and stops the loop.
\<close>

lemma listen_after_long_header_miss:
  "listen toyWire toyProtocol
     [Datagram ''peer'' [128, 9, 3, 1, 0, 0] 4, ReadError (External ''closed'')]
     (Add [1] sessA emptyMap) 0
   = (Stopped, (Add [1] sessA emptyMap)\<lparr> closed := True \<rparr>,
      [Debugf ''peer'' (ErrUnexpectedConnID [9]), Destroy sessA (External ''closed'')])"
  by (simp add: handlePacket_def handlePacketLocks_def readLocksHeld_def route_def close_def
                Add_def toy_defs)

text \<open>
  C8. The specification says that an error of \<open>handlePacket\<close> is contained in its
  iteration, and that a read error ends the loop with \<open>close\<close>. The code does not do this
  for the error of line 199. Here the socket yields one short-header datagram for the
  unknown connection ID \<open>[9]\<close> and then a read error. The error of \<open>handlePacket\<close> is logged
  and the loop reads again, but the read lock of line 174 is still held, so at the read
  error \<open>close\<close> is blocked in \<open>Lock\<close>: the registry is not marked closed, the registered
  session is not destroyed, and \<open>listen\<close> does not return.
\<close>

theorem listen_blocked_after_short_header_miss:
  "handlePacket toyWire toyProtocol 4 ''peer'' [0, 9] (Add [1] sessA emptyMap)
     = (Returns (Some (ErrShortHeaderUnexpectedConnID [9])), [])
   \<and> handlePacketLocks toyWire toyProtocol [0, 9] (Add [1] sessA emptyMap) = 1
   \<and> listen toyWire toyProtocol
        [Datagram ''peer'' [0, 9] 4, ReadError (External ''closed'')]
        (Add [1] sessA emptyMap) 0
      = (Blocked, Add [1] sessA emptyMap, [Debugf ''peer'' (ErrShortHeaderUnexpectedConnID [9])])
   \<and> closed (Add [1] sessA emptyMap) = False"
  by (simp add: handlePacket_def handlePacketLocks_def readLocksHeld_def route_def
                Add_def toy_defs)

end
